theory Spec2Isabelle
  imports
    Main
    "HOL-Library.Char_ord"
    "HOL-Library.List_Lexorder"
    "HOL-Library.Multiset"
    "HOL-Library.Sublist"
begin

section \<open>Conventions of the embedding\<close>

text \<open>
  The module \<^verbatim>\<open>dcos/api/util.py\<close> is embedded as it runs on Python 3. A Python
  \<^verbatim>\<open>str\<close> is a \<^typ>\<open>string\<close>; a \<^typ>\<open>char\<close> stands for one code point below 256, and
  the order on strings is the lexicographic order on code points, which is how Python
  compares \<^verbatim>\<open>str\<close> values. An exception that a call raises is the left summand of its
  result. \<^verbatim>\<open>None\<close> in a slot that may hold a value is \<^term>\<open>None\<close>.
\<close>

datatype py_exception = TypeError | ValueError | OSError | OtherException string

text \<open>
  \<^verbatim>\<open>dcos.api.errors.DefaultError\<close> lives in a module that is not part of these sources;
  the only thing \<^verbatim>\<open>util.py\<close> does with it is to construct it from a message.
\<close>

datatype error = DefaultError string

definition quote :: char where
  "quote = CHR 0x27"

definition newline :: char where
  "newline = CHR 0x0A"

text \<open>\<^verbatim>\<open>sep.join(items)\<close> on items that are all strings.\<close>

fun str_join :: "string \<Rightarrow> string list \<Rightarrow> string" where
  "str_join sep [] = []"
| "str_join sep [x] = x"
| "str_join sep (x # y # ys) = x @ sep @ str_join sep (y # ys)"

section \<open>validate_json\<close>

subsection \<open>The violations of the schema engine\<close>

text \<open>
  A \<^verbatim>\<open>jsonschema.ValidationError\<close> as \<^verbatim>\<open>validate_json\<close> reads it: the message, the
  \<^verbatim>\<open>absolute_path\<close> (a deque whose items are property names, which are strings, and
  array positions, which are integers) and the offending instance.
\<close>

datatype path_item = Key string | Index int

record 'v validation_error =
  message :: string
  absolute_path :: "path_item list"
  instance_value :: 'v

subsection \<open>hack_error_message_fix\<close>

text \<open>
  The character class \<^verbatim>\<open>[\[\(\{\s]\<close>. On a \<^verbatim>\<open>str\<close> pattern \<^verbatim>\<open>\s\<close> matches the Unicode
  white space; below 256 these are the code points 9 to 13, 28 to 32, 133 and 160.
\<close>

definition py_isspace :: "char \<Rightarrow> bool" where
  "py_isspace c = ((of_char c :: nat) \<in> {9, 10, 11, 12, 13, 28, 29, 30, 31, 32, 133, 160})"

definition opener :: "char \<Rightarrow> bool" where
  "opener c = (c = CHR ''['' \<or> c = CHR ''('' \<or> c = CHR ''{'' \<or> py_isspace c)"

text \<open>
  \<^verbatim>\<open>re.compile("^u'").sub("'", message)\<close>: the pattern is anchored at the start of the
  string (no MULTILINE flag), so at most the first two characters are rewritten.
\<close>

fun sub_leading :: "string \<Rightarrow> string" where
  "sub_leading (c # d # rest) =
     (if c = CHR ''u'' \<and> d = quote then quote # rest else c # d # rest)"
| "sub_leading s = s"

text \<open>
  \<^verbatim>\<open>re.compile("([\[\(\{\s])u'").sub("\g<1>'", s)\<close>: the scan goes from left to right;
  at a match the three characters are replaced by the first one and the quote, and the
  scan goes on behind the match; otherwise one character is copied.
\<close>

fun sub_prefixed :: "string \<Rightarrow> string" where
  "sub_prefixed (c # d # e # rest) =
     (if opener c \<and> d = CHR ''u'' \<and> e = quote
      then c # quote # sub_prefixed rest
      else c # sub_prefixed (d # e # rest))"
| "sub_prefixed s = s"

definition hack_error_message_fix :: "string \<Rightarrow> string" where
  "hack_error_message_fix msg = sub_prefixed (sub_leading msg)"

text \<open>\<^verbatim>\<open>six.u\<close> is the identity on Python 3.\<close>

definition six_u :: "string \<Rightarrow> string" where
  "six_u s = s"

definition sort_key_ve :: "'v validation_error \<Rightarrow> string" where
  "sort_key_ve ve = six_u (hack_error_message_fix (message ve))"

subsection \<open>format\<close>

text \<open>
  \<^verbatim>\<open>'.'.join(error.absolute_path)\<close>: \<^verbatim>\<open>str.join\<close> raises \<^verbatim>\<open>TypeError\<close> as soon as an
  item of the sequence is not a string.
\<close>

fun key_of :: "path_item \<Rightarrow> string option" where
  "key_of (Key k) = Some k"
| "key_of (Index i) = None"

definition join_path :: "string \<Rightarrow> path_item list \<Rightarrow> py_exception + string" where
  "join_path sep items =
     (if list_all (\<lambda>i. key_of i \<noteq> None) items
      then Inr (str_join sep (map (\<lambda>i. the (key_of i)) items))
      else Inl TypeError)"

text \<open>
  The nested function \<^verbatim>\<open>format\<close>, statement by statement. \<^verbatim>\<open>json.dumps\<close> is the standard
  library's serialiser, a parameter here: it returns the text or raises (\<^verbatim>\<open>ValueError\<close>
  on an integer with more digits than the interpreter converts to a string, for instance).
\<close>

definition format_ve ::
  "('v \<Rightarrow> py_exception + string) \<Rightarrow> 'v validation_error \<Rightarrow> py_exception + string" where
  "format_ve dumps e =
     (let msg = ''Error: '' @ hack_error_message_fix (message e) @ [newline] in
      case (if length (absolute_path e) > 0 then
              (case join_path ''.'' (absolute_path e) of
                 Inl exc \<Rightarrow> Inl exc
               | Inr p \<Rightarrow> Inr (msg @ ''Path: '' @ p @ [newline]))
            else Inr msg) of
        Inl exc \<Rightarrow> Inl exc
      | Inr msg' \<Rightarrow>
          (case dumps (instance_value e) of
             Inl exc \<Rightarrow> Inl exc
           | Inr v \<Rightarrow> Inr (msg' @ ''Value: '' @ v)))"

text \<open>The text of the \<^verbatim>\<open>Error:\<close> line that \<^verbatim>\<open>format\<close> writes for a violation.\<close>

definition error_line :: "'v validation_error \<Rightarrow> string" where
  "error_line e = ''Error: '' @ hack_error_message_fix (message e)"

text \<open>
  The list comprehension \<^verbatim>\<open>[format(e) for e in validation_errors]\<close>: the first call
  that raises ends it.
\<close>

fun formatted_errors ::
  "('v \<Rightarrow> py_exception + string) \<Rightarrow> 'v validation_error list \<Rightarrow> py_exception + string list" where
  "formatted_errors dumps [] = Inr []"
| "formatted_errors dumps (e # es) =
     (case format_ve dumps e of
        Inl exc \<Rightarrow> Inl exc
      | Inr b \<Rightarrow> (case formatted_errors dumps es of
                   Inl exc \<Rightarrow> Inl exc
                 | Inr bs \<Rightarrow> Inr (b # bs)))"

subsection \<open>validate_json\<close>

text \<open>
  \<^verbatim>\<open>list(jsonschema.Draft4Validator(schema).iter_errors(instance))\<close> is the schema
  engine, a parameter: it raises (on a schema it cannot interpret) or yields the violations
  in some order. \<^verbatim>\<open>sorted(..., key=sort_key)\<close> is a stable sort, as \<^const>\<open>sort_key\<close> is.
\<close>

definition validate_json ::
  "('i \<Rightarrow> 's \<Rightarrow> py_exception + 'v validation_error list) \<Rightarrow>
   ('v \<Rightarrow> py_exception + string) \<Rightarrow> 'i \<Rightarrow> 's \<Rightarrow> py_exception + error option" where
  "validate_json iter_errors dumps inst schema =
     (case iter_errors inst schema of
        Inl exc \<Rightarrow> Inl exc
      | Inr found \<Rightarrow>
          (let validation_errors = sort_key sort_key_ve found in
           case formatted_errors dumps validation_errors of
             Inl exc \<Rightarrow> Inl exc
           | Inr blocks \<Rightarrow>
               if length blocks = 0 then Inr None
               else Inr (Some (DefaultError (str_join [newline, newline] blocks)))))"

section \<open>which\<close>

text \<open>
  What \<^verbatim>\<open>which\<close> reads of the operating system: \<^verbatim>\<open>os.path.isfile\<close>,
  \<^verbatim>\<open>os.access(_, os.X_OK)\<close> and \<^verbatim>\<open>os.environ\<close>. The path functions are those of
  \<^verbatim>\<open>posixpath\<close>, with \<^verbatim>\<open>os.pathsep = ':'\<close>.
\<close>

record os_state =
  isfile :: "string \<Rightarrow> bool"
  access_X_OK :: "string \<Rightarrow> bool"
  environ :: "string \<rightharpoonup> string"

definition str_rstrip :: "string \<Rightarrow> string \<Rightarrow> string" where
  "str_rstrip chars s = rev (dropWhile (\<lambda>c. c \<in> set chars) (rev s))"

definition str_strip :: "string \<Rightarrow> string \<Rightarrow> string" where
  "str_strip chars s = str_rstrip chars (dropWhile (\<lambda>c. c \<in> set chars) s)"

text \<open>\<^verbatim>\<open>s.split(sep)\<close> for a separator of one character: the result is never empty.\<close>

fun str_split :: "char \<Rightarrow> string \<Rightarrow> string list" where
  "str_split sep [] = [[]]"
| "str_split sep (c # cs) =
     (if c = sep then [] # str_split sep cs
      else (case str_split sep cs of
              [] \<Rightarrow> [[c]]
            | piece # pieces \<Rightarrow> (c # piece) # pieces))"

text \<open>
  \<^verbatim>\<open>posixpath.split\<close>: \<^verbatim>\<open>i = p.rfind('/') + 1\<close>, the head is \<^verbatim>\<open>p[:i]\<close> with its
  trailing slashes removed unless it consists of slashes only, the tail is \<^verbatim>\<open>p[i:]\<close>.
\<close>

definition os_path_split :: "string \<Rightarrow> string \<times> string" where
  "os_path_split p =
     (let i = length p - length (takeWhile (\<lambda>c. c \<noteq> CHR ''/'') (rev p));
          head = take i p;
          tail = drop i p
      in if head \<noteq> [] \<and> head \<noteq> replicate (length head) (CHR ''/'')
         then (str_rstrip ''/'' head, tail) else (head, tail))"

text \<open>\<^verbatim>\<open>posixpath.join(a, b)\<close>.\<close>

definition os_path_join :: "string \<Rightarrow> string \<Rightarrow> string" where
  "os_path_join a b =
     (if take 1 b = ''/'' then b
      else if a = [] \<or> (a \<noteq> [] \<and> last a = CHR ''/'') then a @ b
      else a @ ''/'' @ b)"

text \<open>\<^verbatim>\<open>posixpath.isabs\<close>, for the word "absolute" of the specification.\<close>

definition os_path_isabs :: "string \<Rightarrow> bool" where
  "os_path_isabs p = (take 1 p = ''/'')"

definition is_exe :: "os_state \<Rightarrow> string \<Rightarrow> bool" where
  "is_exe os file_path = (isfile os file_path \<and> access_X_OK os file_path)"

text \<open>The \<^verbatim>\<open>for\<close> loop over the entries of the search path.\<close>

fun which_loop :: "os_state \<Rightarrow> string \<Rightarrow> string list \<Rightarrow> string option" where
  "which_loop os program [] = None"
| "which_loop os program (path # paths) =
     (let stripped = str_strip [CHR 0x22] path;
          exe_file = os_path_join stripped program
      in if is_exe os exe_file then Some exe_file else which_loop os program paths)"

text \<open>
  \<^verbatim>\<open>constants.PATH_ENV\<close> is defined in a module that is not part of these sources: it is
  the parameter \<open>PATH_ENV\<close>.
\<close>

definition which :: "os_state \<Rightarrow> string \<Rightarrow> string \<Rightarrow> string option" where
  "which os PATH_ENV program =
     (let (file_path, filename) = os_path_split program in
      if file_path \<noteq> [] then (if is_exe os program then Some program else None)
      else (case environ os PATH_ENV of
              None \<Rightarrow> None
            | Some search_path \<Rightarrow> which_loop os program (str_split (CHR '':'') search_path)))"

section \<open>configure_logger\<close>

text \<open>
  The state of the \<^verbatim>\<open>logging\<close> module that \<^verbatim>\<open>configure_logger\<close> touches: the level
  set by \<^verbatim>\<open>logging.disable\<close>, and the handlers (stream and format) and the level of the
  root logger.
\<close>

record logging_state =
  manager_disable :: int
  root_handlers :: "(string \<times> string) list"
  root_level :: int

definition CRITICAL :: int where
  "CRITICAL = 50"

text \<open>\<^verbatim>\<open>logging._nameToLevel\<close>.\<close>

definition name_to_level :: "string \<rightharpoonup> int" where
  "name_to_level = map_of
     [(''CRITICAL'', 50), (''FATAL'', 50), (''ERROR'', 40), (''WARN'', 30),
      (''WARNING'', 30), (''INFO'', 20), (''DEBUG'', 10), (''NOTSET'', 0)]"

definition logging_disable :: "int \<Rightarrow> logging_state \<Rightarrow> logging_state" where
  "logging_disable level st = st\<lparr>manager_disable := level\<rparr>"

text \<open>\<^verbatim>\<open>Logger.isEnabledFor\<close> of the root logger.\<close>

definition isEnabledFor :: "logging_state \<Rightarrow> int \<Rightarrow> bool" where
  "isEnabledFor st level = (if manager_disable st \<ge> level then False else level \<ge> root_level st)"

text \<open>
  \<^verbatim>\<open>logging.basicConfig(format=..., stream=..., level=...)\<close> with a level name: nothing
  happens when the root logger has a handler; otherwise the handler is added and then the
  level is set, which raises \<^verbatim>\<open>ValueError\<close> on a name that is not a level.
\<close>

definition basicConfig ::
  "string \<Rightarrow> string \<Rightarrow> string \<Rightarrow> logging_state \<Rightarrow> (py_exception + unit) \<times> logging_state" where
  "basicConfig fmt stream level st =
     (if length (root_handlers st) = 0 then
        (let st1 = st\<lparr>root_handlers := root_handlers st @ [(stream, fmt)]\<rparr> in
         case name_to_level level of
           None \<Rightarrow> (Inl ValueError, st1)
         | Some l \<Rightarrow> (Inr (), st1\<lparr>root_level := l\<rparr>))
      else (Inr (), st))"

text \<open>
  \<^verbatim>\<open>str.upper\<close>. Only the letters a to z are mapped. Python maps further characters, but
  none of them to a string that occurs in a level name, so the lookup of the level is the
  same.
\<close>

definition upper_char :: "char \<Rightarrow> char" where
  "upper_char c =
     (case map_of (zip ''abcdefghijklmnopqrstuvwxyz'' ''ABCDEFGHIJKLMNOPQRSTUVWXYZ'') c of
        None \<Rightarrow> c
      | Some u \<Rightarrow> u)"

definition str_upper :: "string \<Rightarrow> string" where
  "str_upper s = map upper_char s"

text \<open>
  \<^verbatim>\<open>constants.VALID_LOG_LEVEL_VALUES\<close> is defined in a module that is not part of these
  sources: it is a parameter, a sequence of strings. \<^verbatim>\<open>{!r}\<close> formats with \<^verbatim>\<open>repr\<close>,
  a builtin: \<open>repr_str\<close> on the string and \<open>repr_values\<close> on the constant.
\<close>

definition configure_logger ::
  "string list \<Rightarrow> (string \<Rightarrow> string) \<Rightarrow> (string list \<Rightarrow> string) \<Rightarrow>
   string option \<Rightarrow> logging_state \<Rightarrow> (py_exception + error option) \<times> logging_state" where
  "configure_logger VALID_LOG_LEVEL_VALUES repr_str repr_values log_level st =
     (case log_level of
        None \<Rightarrow> (Inr None, logging_disable CRITICAL st)
      | Some name \<Rightarrow>
          if name \<in> set VALID_LOG_LEVEL_VALUES then
            (case basicConfig ''%(message)s'' ''sys.stderr'' (str_upper name) st of
               (Inl exc, st') \<Rightarrow> (Inl exc, st')
             | (Inr u, st') \<Rightarrow> (Inr None, st'))
          else
            (Inr (Some (DefaultError
               (''Log level set to an unknown value '' @ repr_str name @
                ''. Valid values are '' @ repr_values VALID_LOG_LEVEL_VALUES))), st))"

section \<open>load_json, load_jsons and parse_int\<close>

text \<open>
  \<^verbatim>\<open>try: ... except: ...\<close> with a bare \<^verbatim>\<open>except\<close>: every exception of the body goes to
  the handler.
\<close>

definition try_except ::
  "(py_exception + 'a) \<Rightarrow> (py_exception \<Rightarrow> py_exception + 'a) \<Rightarrow> py_exception + 'a" where
  "try_except body handler = (case body of Inl exc \<Rightarrow> handler exc | Inr v \<Rightarrow> Inr v)"

text \<open>
  \<^verbatim>\<open>json.loads\<close> is the standard library's decoder, the parameter \<open>json_loads\<close>: it raises
  or returns an object, which is \<^verbatim>\<open>None\<close> for the JSON text \<^verbatim>\<open>null\<close>. The reader of
  \<^verbatim>\<open>load_json\<close> is given by what its \<^verbatim>\<open>read()\<close> does: it raises or returns the text, and
  \<^verbatim>\<open>json.load(reader)\<close> decodes that text. The handlers pass a record to
  \<^verbatim>\<open>logger.error\<close>; the returned pair does not depend on it, and it is left out.
\<close>

definition load_json ::
  "(string \<Rightarrow> py_exception + 'v option) \<Rightarrow> (py_exception + string) \<Rightarrow>
   py_exception + ('v option \<times> error option)" where
  "load_json json_loads reader =
     try_except
       (case reader of
          Inl exc \<Rightarrow> Inl exc
        | Inr text \<Rightarrow> (case json_loads text of Inl exc \<Rightarrow> Inl exc | Inr v \<Rightarrow> Inr (v, None)))
       (\<lambda>exc. Inr (None, Some (DefaultError ''Error loading JSON.'')))"

definition load_jsons ::
  "(string \<Rightarrow> py_exception + 'v option) \<Rightarrow> string \<Rightarrow>
   py_exception + ('v option \<times> error option)" where
  "load_jsons json_loads v =
     try_except
       (case json_loads v of Inl exc \<Rightarrow> Inl exc | Inr x \<Rightarrow> Inr (x, None))
       (\<lambda>exc. Inr (None, Some (DefaultError ''Error loading JSON.'')))"

text \<open>
  For the examples, a decoder that answers as \<^verbatim>\<open>json.loads\<close> does on the three literal
  names of JSON, \<^verbatim>\<open>null\<close> being \<^verbatim>\<open>None\<close>; it is defined on these texts only and
  refuses every other one, as \<^verbatim>\<open>json.loads\<close> refuses the text \<^verbatim>\<open>{not json\<close>.
\<close>

definition loads_literal :: "string \<Rightarrow> py_exception + bool option" where
  "loads_literal s =
     (if s = ''null'' then Inr None
      else if s = ''true'' then Inr (Some True)
      else if s = ''false'' then Inr (Some False)
      else Inl ValueError)"

text \<open>
  \<^verbatim>\<open>int(string)\<close> in base 10. The white space that is dropped around the literal is
  the white space of C (code points 9 to 13 and 32) and, beyond ASCII, the Unicode white
  space, which below 256 is 133 and 160; the code points 28 to 31 are not dropped. One sign
  may come first, then digits, where single underscores may stand between two digits. A
  literal of more than 640 digits is refused when it has more digits than the
  interpreter's limit \<^verbatim>\<open>sys.get_int_max_str_digits()\<close> (4300 unless configured; 0 switches
  the limit off), the parameter \<open>max_str_digits\<close>.
\<close>

definition int_space :: "char \<Rightarrow> bool" where
  "int_space c = ((of_char c :: nat) \<in> {9, 10, 11, 12, 13, 32, 133, 160})"

definition is_digit :: "char \<Rightarrow> bool" where
  "is_digit c = (c \<in> set ''0123456789'')"

definition digit_value :: "char \<Rightarrow> nat" where
  "digit_value c = of_char c - of_char (CHR ''0'')"

fun digits_value :: "nat \<Rightarrow> string \<Rightarrow> nat option" where
  "digits_value acc [] = Some acc"
| "digits_value acc [c] =
     (if is_digit c then Some (10 * acc + digit_value c) else None)"
| "digits_value acc (c # d # cs) =
     (if c = CHR ''_'' then
        (if is_digit d then digits_value (10 * acc + digit_value d) cs else None)
      else if is_digit c then digits_value (10 * acc + digit_value c) (d # cs)
      else None)"

definition too_many_digits :: "nat \<Rightarrow> nat \<Rightarrow> bool" where
  "too_many_digits max_str_digits n = (n > 640 \<and> max_str_digits > 0 \<and> n > max_str_digits)"

definition unsigned_value :: "nat \<Rightarrow> string \<Rightarrow> nat option" where
  "unsigned_value max_str_digits s =
     (case s of
        [] \<Rightarrow> None
      | c # cs \<Rightarrow>
          if is_digit c then
            (if too_many_digits max_str_digits (length (filter is_digit s)) then None
             else digits_value (digit_value c) cs)
          else None)"

definition strip_space :: "string \<Rightarrow> string" where
  "strip_space s = dropWhile int_space (rev (dropWhile int_space (rev s)))"

definition py_int :: "nat \<Rightarrow> string \<Rightarrow> py_exception + int" where
  "py_int max_str_digits s =
     (let t = strip_space s in
      case t of
        [] \<Rightarrow> Inl ValueError
      | c # cs \<Rightarrow>
          if c = CHR ''-'' then
            (case unsigned_value max_str_digits cs of
               None \<Rightarrow> Inl ValueError | Some n \<Rightarrow> Inr (- int n))
          else if c = CHR ''+'' then
            (case unsigned_value max_str_digits cs of
               None \<Rightarrow> Inl ValueError | Some n \<Rightarrow> Inr (int n))
          else
            (case unsigned_value max_str_digits t of
               None \<Rightarrow> Inl ValueError | Some n \<Rightarrow> Inr (int n)))"

definition parse_int :: "nat \<Rightarrow> string \<Rightarrow> py_exception + (int option \<times> error option)" where
  "parse_int max_str_digits s =
     try_except
       (case py_int max_str_digits s of Inl exc \<Rightarrow> Inl exc | Inr n \<Rightarrow> Inr (Some n, None))
       (\<lambda>exc. Inr (None, Some (DefaultError ''Error parsing string as int'')))"

text \<open>
  What the decimal literals of \<^verbatim>\<open>int\<close> are, said without the scanner: groups of digits
  joined by single underscores (\<open>under\<close> writes groups each behind an underscore), with
  white space around and one sign in front at most, within the limit on the digits; and
  the number that the digits denote.
\<close>

definition under :: "string list \<Rightarrow> string" where
  "under gs = concat (map (\<lambda>g. CHR ''_'' # g) gs)"

definition decimal_value :: "string \<Rightarrow> nat" where
  "decimal_value ds = foldl (\<lambda>acc c. 10 * acc + digit_value c) 0 ds"

definition digit_group :: "string \<Rightarrow> bool" where
  "digit_group g = (g \<noteq> [] \<and> list_all is_digit g)"

definition int_literal :: "nat \<Rightarrow> string \<Rightarrow> int \<Rightarrow> bool" where
  "int_literal max_str_digits s k =
     (\<exists>before sign groups after.
        s = before @ sign @ str_join ''_'' groups @ after
      \<and> list_all int_space before \<and> list_all int_space after
      \<and> (sign = [] \<or> sign = ''+'' \<or> sign = ''-'')
      \<and> groups \<noteq> [] \<and> list_all digit_group groups
      \<and> \<not> too_many_digits max_str_digits (length (concat groups))
      \<and> k = (if sign = ''-'' then - int (decimal_value (concat groups))
              else int (decimal_value (concat groups))))"

section \<open>tempdir\<close>

text \<open>
  The file system is the list of the paths that exist. \<^verbatim>\<open>tempfile.mkdtemp\<close> raises or
  creates a directory and returns its path. \<open>deletable\<close> says for which entries the
  operating system carries out \<^verbatim>\<open>unlink\<close> or \<^verbatim>\<open>rmdir\<close> once nothing is left beneath
  them; on the others the call fails.
\<close>

type_synonym filesystem = "string list"

definition within :: "string \<Rightarrow> string \<Rightarrow> bool" where
  "within dir p = (p = dir \<or> prefix (dir @ ''/'') p)"

text \<open>
  \<^verbatim>\<open>shutil.rmtree(dir, ignore_errors=True)\<close> removes the entries bottom up and goes on
  after a failure: an entry at or beneath \<open>dir\<close> is gone afterwards when the removal of it
  and of everything beneath it succeeded.
\<close>

definition removed_by_rmtree :: "(string \<Rightarrow> bool) \<Rightarrow> filesystem \<Rightarrow> string \<Rightarrow> string \<Rightarrow> bool" where
  "removed_by_rmtree deletable fs dir p =
     (within dir p \<and> list_all deletable (filter (within p) fs))"

definition rmtree_ignore_errors :: "(string \<Rightarrow> bool) \<Rightarrow> string \<Rightarrow> filesystem \<Rightarrow> filesystem" where
  "rmtree_ignore_errors deletable dir fs =
     filter (\<lambda>p. \<not> removed_by_rmtree deletable fs dir p) fs"

text \<open>
  The context manager with the body of the \<^verbatim>\<open>with\<close> statement: the body receives the
  path and the file system, and returns or raises; the \<^verbatim>\<open>finally\<close> clause runs in both
  cases, and the outcome of the body is the outcome of the statement.
\<close>

definition tempdir ::
  "(filesystem \<Rightarrow> py_exception + string) \<Rightarrow> (string \<Rightarrow> bool) \<Rightarrow>
   (string \<Rightarrow> filesystem \<Rightarrow> (py_exception + 'a) \<times> filesystem) \<Rightarrow>
   filesystem \<Rightarrow> (py_exception + 'a) \<times> filesystem" where
  "tempdir mkdtemp deletable body fs =
     (case mkdtemp fs of
        Inl exc \<Rightarrow> (Inl exc, fs)
      | Inr tmpdir \<Rightarrow>
          (case body tmpdir (tmpdir # fs) of
             (outcome, fs1) \<Rightarrow> (outcome, rmtree_ignore_errors deletable tmpdir fs1)))"

section \<open>Properties of the message normalisation\<close>

lemma sub_prefixed_plain:
  "\<not> opener c \<Longrightarrow> sub_prefixed (c # s) = c # sub_prefixed s"
  by (cases s rule: sub_prefixed.cases) auto

lemma sub_prefixed_not_u:
  "d \<noteq> CHR ''u'' \<Longrightarrow> sub_prefixed (c # d # s) = c # sub_prefixed (d # s)"
  by (cases s) auto

lemma sub_prefixed_head:
  "\<exists>t. sub_prefixed (c # s) = c # t"
  by (cases "c # s" rule: sub_prefixed.cases) auto

lemma opener_u: "\<not> opener (CHR ''u'')"
  by (simp add: opener_def py_isspace_def)

lemma opener_quote: "\<not> opener quote"
  by (simp add: opener_def py_isspace_def quote_def)

lemma quote_not_u: "quote \<noteq> CHR ''u''"
  by (simp add: quote_def)

lemma sub_leading_other: "c \<noteq> CHR ''u'' \<Longrightarrow> sub_leading (c # s) = c # s"
  by (cases s) auto

lemma sub_prefixed_idem: "sub_prefixed (sub_prefixed s) = sub_prefixed s"
proof (induction s rule: sub_prefixed.induct)
  case (1 c d e rest)
  show ?case
  proof (cases "opener c \<and> d = CHR ''u'' \<and> e = quote")
    case True
    have "sub_prefixed (c # quote # sub_prefixed rest) = c # sub_prefixed (quote # sub_prefixed rest)"
      by (rule sub_prefixed_not_u) (rule quote_not_u)
    also have "\<dots> = c # quote # sub_prefixed (sub_prefixed rest)"
      by (simp add: sub_prefixed_plain opener_quote)
    finally show ?thesis using True 1 by simp
  next
    case nomatch: False
    obtain t where t: "sub_prefixed (d # e # rest) = d # t"
      using sub_prefixed_head by blast
    have ih: "sub_prefixed (d # t) = d # t"
      using 1(2) nomatch t by simp
    show ?thesis
    proof (cases "opener c \<and> d = CHR ''u''")
      case no: False
      have "sub_prefixed (c # d # t) = c # sub_prefixed (d # t)"
      proof (cases "opener c")
        case True
        with no have "d \<noteq> CHR ''u''" by simp
        then show ?thesis by (rule sub_prefixed_not_u)
      next
        case False
        then show ?thesis by (rule sub_prefixed_plain)
      qed
      with nomatch ih t show ?thesis by auto
    next
      case yes: True
      with nomatch have e: "e \<noteq> quote" by simp
      from yes have d: "d = CHR ''u''" by simp
      have t': "t = sub_prefixed (e # rest)"
        using t d by (simp add: sub_prefixed_plain opener_u)
      obtain r where r: "sub_prefixed (e # rest) = e # r"
        using sub_prefixed_head by blast
      have "sub_prefixed (c # d # e # r) = c # sub_prefixed (d # e # r)"
        using e by simp
      with nomatch ih t t' r show ?thesis by auto
    qed
  qed
qed simp_all

lemma sub_leading_fixed:
  "sub_leading (sub_prefixed (sub_leading s)) = sub_prefixed (sub_leading s)"
proof (cases s rule: sub_leading.cases)
  case (1 c d rest)
  show ?thesis
  proof (cases "c = CHR ''u'' \<and> d = quote")
    case True
    then show ?thesis
      using 1 by (simp add: sub_prefixed_plain opener_quote sub_leading_other quote_not_u)
  next
    case nomatch: False
    show ?thesis
    proof (cases "c = CHR ''u''")
      case True
      with nomatch have "d \<noteq> quote" by simp
      obtain r where "sub_prefixed (d # rest) = d # r" using sub_prefixed_head by blast
      with True \<open>d \<noteq> quote\<close> 1 show ?thesis
        by (simp add: sub_prefixed_plain opener_u)
    next
      case cu: False
      obtain r where "sub_prefixed (c # d # rest) = c # r" using sub_prefixed_head by blast
      with cu 1 show ?thesis by (simp add: sub_leading_other)
    qed
  qed
qed simp_all

lemma hack_error_message_fix_fixed:
  "hack_error_message_fix (hack_error_message_fix s) = hack_error_message_fix s"
  by (simp add: hack_error_message_fix_def sub_leading_fixed sub_prefixed_idem)

text \<open>
  Claim C10. The normalisation of the message is idempotent: applied to its own result
  it changes nothing. The sort key of a violation is the normalised message, and when
  \<^verbatim>\<open>format\<close> returns a block, the block starts with \<^verbatim>\<open>Error: \<close>, the sort key and a line
  break; otherwise \<^verbatim>\<open>format\<close> raises \<^verbatim>\<open>TypeError\<close>, or what \<^verbatim>\<open>json.dumps\<close> raises on the
  value.
\<close>

theorem hack_error_message_fix_idempotent:
  "hack_error_message_fix (hack_error_message_fix s) = hack_error_message_fix s
   \<and> sort_key_ve ve = hack_error_message_fix (message ve)
   \<and> hack_error_message_fix (sort_key_ve ve) = sort_key_ve ve
   \<and> (format_ve dumps ve = Inl TypeError
      \<or> (\<exists>exc. dumps (instance_value ve) = Inl exc \<and> format_ve dumps ve = Inl exc)
      \<or> (\<exists>rest. format_ve dumps ve = Inr (''Error: '' @ sort_key_ve ve @ [newline] @ rest)))"
proof -
  have key: "sort_key_ve ve = hack_error_message_fix (message ve)"
    by (simp add: sort_key_ve_def six_u_def)
  have block: "format_ve dumps ve = Inl TypeError
      \<or> (\<exists>exc. dumps (instance_value ve) = Inl exc \<and> format_ve dumps ve = Inl exc)
      \<or> (\<exists>rest. format_ve dumps ve = Inr (''Error: '' @ sort_key_ve ve @ [newline] @ rest))"
    unfolding key
    by (cases "dumps (instance_value ve)") (simp_all add: format_ve_def join_path_def Let_def)
  show ?thesis
    using key block by (simp add: hack_error_message_fix_fixed)
qed

theorem hack_error_message_fix_idempotent_witness:
  "hack_error_message_fix (hack_error_message_fix (CHR ''u'' # quote # ''x'' @ [quote] @ '' is not one of [u'' @ [quote] @ ''a'' @ [quote] @ '']''))
     = quote # ''x'' @ [quote] @ '' is not one of ['' @ [quote] @ ''a'' @ [quote] @ '']''"
proof -
  let ?s = "CHR ''u'' # quote # ''x'' @ [quote] @ '' is not one of [u'' @ [quote] @ ''a'' @ [quote] @ '']''"
  let ?ve = "\<lparr>message = ?s, absolute_path = [], instance_value = 7::nat\<rparr>"
  have once: "hack_error_message_fix ?s
      = quote # ''x'' @ [quote] @ '' is not one of ['' @ [quote] @ ''a'' @ [quote] @ '']''"
    by (simp add: hack_error_message_fix_def opener_def py_isspace_def quote_def)
  have twice: "hack_error_message_fix (hack_error_message_fix ?s) = hack_error_message_fix ?s"
    by (rule hack_error_message_fix_idempotent [of ?s ?ve "\<lambda>n. Inr ''7''", THEN conjunct1])
  show ?thesis
    unfolding twice by (rule once)
qed

section \<open>Properties of validate_json\<close>

lemma join_path_raises_iff:
  "join_path sep items = Inl exc \<longleftrightarrow> exc = TypeError \<and> (\<exists>i. Index i \<in> set items)"
proof -
  have "list_all (\<lambda>i. key_of i \<noteq> None) items \<longleftrightarrow> \<not> (\<exists>i. Index i \<in> set items)"
  proof (induction items)
    case Nil
    then show ?case by simp
  next
    case (Cons a items)
    then show ?case by (cases a) auto
  qed
  then show ?thesis by (auto simp: join_path_def)
qed

lemma format_ve_raises_iff:
  "format_ve dumps e = Inl exc \<longleftrightarrow>
     (exc = TypeError \<and> (\<exists>i. Index i \<in> set (absolute_path e)))
   \<or> (\<not> (\<exists>i. Index i \<in> set (absolute_path e)) \<and> dumps (instance_value e) = Inl exc)"
proof (cases "absolute_path e = []")
  case True
  then show ?thesis
    by (cases "dumps (instance_value e)") (simp_all add: format_ve_def)
next
  case False
  show ?thesis
  proof (cases "join_path ''.'' (absolute_path e)")
    case (Inl x)
    then have "x = TypeError \<and> (\<exists>i. Index i \<in> set (absolute_path e))"
      by (simp add: join_path_raises_iff)
    with Inl False show ?thesis by (auto simp: format_ve_def)
  next
    case (Inr p)
    have "\<not> (\<exists>i. Index i \<in> set (absolute_path e))"
    proof
      assume "\<exists>i. Index i \<in> set (absolute_path e)"
      then have "join_path ''.'' (absolute_path e) = Inl TypeError"
        by (simp add: join_path_raises_iff)
      with Inr show False by simp
    qed
    with Inr False show ?thesis
      by (cases "dumps (instance_value e)") (simp_all add: format_ve_def)
  qed
qed

lemma format_ve_index:
  "Index i \<in> set (absolute_path e) \<Longrightarrow> format_ve dumps e = Inl TypeError"
  using format_ve_raises_iff [of dumps e TypeError] by blast

lemma format_ve_starts:
  "format_ve dumps e = Inr b \<Longrightarrow> prefix (error_line e @ [newline]) b"
  by (auto simp: format_ve_def error_line_def Let_def split: if_splits sum.splits)

lemma format_ve_returns_iff:
  "(\<exists>b. format_ve dumps e = Inr b) \<longleftrightarrow>
     \<not> (\<exists>i. Index i \<in> set (absolute_path e)) \<and> (\<exists>v. dumps (instance_value e) = Inr v)"
proof (cases "format_ve dumps e")
  case (Inl exc)
  then have "(\<exists>i. Index i \<in> set (absolute_path e)) \<or> dumps (instance_value e) = Inl exc"
    using format_ve_raises_iff [of dumps e exc] by blast
  with Inl show ?thesis by auto
next
  case (Inr b)
  have no: "\<not> (\<exists>i. Index i \<in> set (absolute_path e))"
  proof
    assume "\<exists>i. Index i \<in> set (absolute_path e)"
    then have "format_ve dumps e = Inl TypeError" by (auto simp: format_ve_index)
    with Inr show False by simp
  qed
  have "\<exists>v. dumps (instance_value e) = Inr v"
  proof (cases "dumps (instance_value e)")
    case (Inl exc)
    with no have "format_ve dumps e = Inl exc" by (simp add: format_ve_raises_iff)
    with Inr show ?thesis by simp
  next
    case (Inr v)
    then show ?thesis by blast
  qed
  with no Inr show ?thesis by simp
qed

lemma formatted_errors_Inr_iff:
  "formatted_errors dumps es = Inr bs \<longleftrightarrow> map (format_ve dumps) es = map Inr bs"
proof (induction es arbitrary: bs)
  case Nil
  then show ?case by auto
next
  case (Cons e es)
  show ?case
  proof (cases "format_ve dumps e")
    case (Inl exc)
    then show ?thesis by (cases bs) auto
  next
    case b: (Inr b)
    show ?thesis
    proof (cases "formatted_errors dumps es")
      case (Inl exc)
      have "map (format_ve dumps) es \<noteq> map Inr cs" for cs
        using Cons.IH [of cs] Inl by simp
      with b Inl show ?thesis by (cases bs) auto
    next
      case (Inr cs)
      then have "map (format_ve dumps) es = map Inr cs" by (simp add: Cons.IH)
      with b Inr show ?thesis by (cases bs) auto
    qed
  qed
qed

lemma formatted_errors_raises:
  "formatted_errors dumps es = Inl exc \<Longrightarrow> \<exists>e \<in> set es. format_ve dumps e = Inl exc"
proof (induction es)
  case Nil
  then show ?case by simp
next
  case (Cons e es)
  show ?case
  proof (cases "format_ve dumps e")
    case (Inl x)
    with Cons.prems show ?thesis by simp
  next
    case (Inr b)
    with Cons show ?thesis by (cases "formatted_errors dumps es") auto
  qed
qed

lemma formatted_errors_raises_iff:
  "(\<exists>exc. formatted_errors dumps es = Inl exc) \<longleftrightarrow>
     (\<exists>e \<in> set es. \<exists>exc. format_ve dumps e = Inl exc)"
proof (induction es)
  case Nil
  then show ?case by simp
next
  case (Cons e es)
  show ?case
  proof (cases "format_ve dumps e")
    case (Inl x)
    then show ?thesis by auto
  next
    case (Inr b)
    with Cons show ?thesis by (cases "formatted_errors dumps es") auto
  qed
qed

lemma formatted_errors_length:
  "formatted_errors dumps es = Inr bs \<Longrightarrow> length bs = length es"
  using formatted_errors_Inr_iff [of dumps es bs] by (metis length_map)

lemma formatted_errors_cong:
  "map (format_ve dumps) es = map (format_ve dumps) es' \<Longrightarrow>
   formatted_errors dumps es = formatted_errors dumps es'"
proof (induction es arbitrary: es')
  case Nil
  then show ?case by simp
next
  case (Cons e es)
  then obtain e' rest where "es' = e' # rest" by (cases es') auto
  with Cons show ?case by (auto split: sum.splits)
qed

lemma sorted_error_lines:
  "sorted (map error_line es) = sorted (map sort_key_ve es)"
proof -
  have "(''Error: '' @ a \<le> ''Error: '' @ b) = (a \<le> b)" for a b :: string
    by simp
  then show ?thesis
    by (induction es) (auto simp: error_line_def sort_key_ve_def six_u_def)
qed

lemma map_sort_key_cong:
  fixes k :: "'a \<Rightarrow> 'k::linorder"
  assumes m: "mset xs = mset ys"
    and ties: "\<forall>a\<in>set xs. \<forall>b\<in>set xs. k a = k b \<longrightarrow> g a = g b"
  shows "map g (sort_key k xs) = map g (sort_key k ys)"
proof -
  define h where "h = (\<lambda>x. (k x, g x))"
  define L1 where "L1 = map h (sort_key k xs)"
  define L2 where "L2 = map h (sort_key k ys)"
  have fst_h: "map fst (map h zs) = map k zs" for zs
    by (simp add: h_def comp_def)
  have snd_h: "map snd (map h zs) = map g zs" for zs
    by (simp add: h_def comp_def)
  have ms: "mset L1 = mset L2"
  proof -
    have "mset L1 = image_mset h (mset xs)" by (simp add: L1_def)
    also have "\<dots> = image_mset h (mset ys)" by (simp only: m)
    also have "\<dots> = mset L2" by (simp add: L2_def)
    finally show ?thesis .
  qed
  have set1: "set L1 = h ` set xs" by (simp add: L1_def)
  have inj: "inj_on fst (set L1)"
  proof (rule inj_onI)
    fix p q
    assume p: "p \<in> set L1" and q: "q \<in> set L1" and eq: "fst p = fst q"
    from p set1 obtain a where a: "a \<in> set xs" "p = h a" by blast
    from q set1 obtain b where b: "b \<in> set xs" "q = h b" by blast
    from eq a b have "k a = k b" by (simp add: h_def)
    with ties a b have "g a = g b" by blast
    with \<open>k a = k b\<close> a b show "p = q" by (simp add: h_def)
  qed
  have s1: "sorted (map fst L1)" unfolding L1_def fst_h by simp
  have s2: "sorted (map fst L2)" unfolding L2_def fst_h by simp
  have "sort_key fst L1 = L2" using ms inj s2 by (rule sort_key_inj_key_eq)
  moreover have "sort_key fst L1 = L1" using s1 by (rule sort_key_id_if_sorted)
  ultimately have "L1 = L2" by simp
  then have "map snd L1 = map snd L2" by simp
  then show ?thesis unfolding L1_def L2_def snd_h .
qed

lemma validate_json_error_iff:
  assumes "iter_errors inst schema = Inr found"
  shows "validate_json iter_errors dumps inst schema = Inr (Some (DefaultError report)) \<longleftrightarrow>
     (\<exists>blocks. formatted_errors dumps (sort_key sort_key_ve found) = Inr blocks
        \<and> blocks \<noteq> [] \<and> report = str_join [newline, newline] blocks)"
proof (cases "formatted_errors dumps (sort_key sort_key_ve found)")
  case (Inl exc)
  then show ?thesis using assms by (simp add: validate_json_def)
next
  case (Inr blocks)
  then show ?thesis using assms by (cases "blocks = []") (auto simp: validate_json_def)
qed

text \<open>
  The form of a report. When the engine finds the violations \<open>found\<close> and
  \<^verbatim>\<open>validate_json\<close> returns an error with the message \<open>report\<close>, then \<open>report\<close> is the
  join, with two line breaks as separator, of exactly as many blocks as there are
  violations (at least one); the blocks are the formatted violations in an order in which
  the texts of their \<^verbatim>\<open>Error:\<close> lines ascend in the lexicographic order on code points, and
  each block begins with its \<^verbatim>\<open>Error:\<close> line.
\<close>

lemma validate_json_blocks_sorted:
  assumes found: "iter_errors inst schema = Inr found"
    and result: "validate_json iter_errors dumps inst schema = Inr (Some (DefaultError report))"
  shows "\<exists>ordered blocks.
           mset ordered = mset found
         \<and> formatted_errors dumps ordered = Inr blocks
         \<and> length blocks = length found \<and> 1 \<le> length found
         \<and> report = str_join [newline, newline] blocks
         \<and> sorted (map error_line ordered)
         \<and> (\<forall>i < length blocks. prefix (error_line (ordered ! i) @ [newline]) (blocks ! i))"
proof -
  let ?ordered = "sort_key sort_key_ve found"
  from result obtain blocks where blocks: "formatted_errors dumps ?ordered = Inr blocks"
    and nonempty: "blocks \<noteq> []" and joined: "report = str_join [newline, newline] blocks"
    unfolding validate_json_error_iff [of iter_errors inst schema found dumps report, OF found]
    by blast
  have len: "length blocks = length found"
    using formatted_errors_length [OF blocks] by simp
  have maps: "map (format_ve dumps) ?ordered = map Inr blocks"
    using blocks by (simp only: formatted_errors_Inr_iff)
  have starts: "prefix (error_line (?ordered ! i) @ [newline]) (blocks ! i)" if "i < length blocks" for i
  proof -
    have "map (format_ve dumps) ?ordered ! i = map Inr blocks ! i"
      by (simp only: maps)
    then have "format_ve dumps (?ordered ! i) = Inr (blocks ! i)"
      using that len by simp
    then show ?thesis by (rule format_ve_starts)
  qed
  have srt: "sorted (map error_line ?ordered)"
    by (simp add: sorted_error_lines)
  have one: "1 \<le> length found"
    using nonempty len by (cases blocks) simp_all
  have ms: "mset ?ordered = mset found" by simp
  show ?thesis
  proof (intro exI conjI allI impI)
    show "mset ?ordered = mset found" by (rule ms)
    show "formatted_errors dumps ?ordered = Inr blocks" by (rule blocks)
    show "length blocks = length found" by (rule len)
    show "1 \<le> length found" by (rule one)
    show "report = str_join [newline, newline] blocks" by (rule joined)
    show "sorted (map error_line ?ordered)" by (rule srt)
    show "prefix (error_line (?ordered ! i) @ [newline]) (blocks ! i)" if "i < length blocks" for i
      using that by (rule starts)
  qed
qed

text \<open>
  A report is returned whenever there is a violation and \<^verbatim>\<open>format\<close> returns a block for
  each one.
\<close>

lemma validate_json_reports:
  assumes found: "iter_errors inst schema = Inr found"
    and some: "found \<noteq> []"
    and blocks: "\<forall>e \<in> set found. \<exists>b. format_ve dumps e = Inr b"
  shows "\<exists>report. validate_json iter_errors dumps inst schema = Inr (Some (DefaultError report))"
proof (cases "formatted_errors dumps (sort_key sort_key_ve found)")
  case (Inl exc)
  then have "\<exists>e \<in> set (sort_key sort_key_ve found). format_ve dumps e = Inl exc"
    by (rule formatted_errors_raises)
  then obtain e where "e \<in> set found" "format_ve dumps e = Inl exc" by auto
  with blocks show ?thesis by auto
next
  case (Inr bs)
  then have "length bs = length found"
    using formatted_errors_length [OF Inr] by simp
  with some have "bs \<noteq> []" by auto
  with Inr found show ?thesis by (simp add: validate_json_def)
qed

text \<open>
  Claim C2, at two violations of which one lies inside an array: for the instance
  \<^verbatim>\<open>{"items": [1]}\<close> under the schema
  \<^verbatim>\<open>{"properties": {"items": {"minItems": 2, "items": {"type": "string"}}}}\<close> the engine
  yields N = 2 violations, one of them with the path \<^verbatim>\<open>deque(['items', 0])\<close>.
  \<^verbatim>\<open>validate_json\<close> returns no message of two blocks, it raises \<^verbatim>\<open>TypeError\<close>.
\<close>

theorem validate_json_no_report_with_index:
  "validate_json
     (\<lambda>inst schema. Inr [\<lparr>message = ''[1] is too short'',
                            absolute_path = [Key ''items''], instance_value = 2 :: int\<rparr>,
                          \<lparr>message = ''1 is not of type '' @ [quote] @ ''string'' @ [quote],
                            absolute_path = [Key ''items'', Index 0], instance_value = 1\<rparr>])
     dumps inst schema = Inl TypeError"
  by (simp add: validate_json_def format_ve_def join_path_def sort_key_ve_def six_u_def
        hack_error_message_fix_def opener_def py_isspace_def quote_def)

lemma key_path_joins:
  "join_path sep (map Key ks) = Inr (str_join sep ks)"
proof -
  have "list_all (\<lambda>i. key_of i \<noteq> None) (map Key ks)" by (induction ks) simp_all
  moreover have "map (\<lambda>i. the (key_of i)) (map Key ks) = ks" by (induction ks) simp_all
  ultimately show ?thesis by (simp add: join_path_def)
qed

text \<open>
  The block of a violation whose path holds property names only, when \<^verbatim>\<open>json.dumps\<close>
  returns the text \<open>t\<close> for the value: two lines (\<^verbatim>\<open>Error:\<close>, \<^verbatim>\<open>Value:\<close>) for the empty path,
  and otherwise three lines, the second one \<^verbatim>\<open>Path:\<close> with the names joined by a dot.
\<close>

lemma format_ve_key_path:
  "dumps v = Inr t \<Longrightarrow>
   format_ve dumps \<lparr>message = m, absolute_path = map Key ks, instance_value = v\<rparr> =
     Inr (str_join [newline]
       (if ks = []
        then [''Error: '' @ hack_error_message_fix m, ''Value: '' @ t]
        else [''Error: '' @ hack_error_message_fix m, ''Path: '' @ str_join ''.'' ks,
              ''Value: '' @ t]))"
  by (simp add: format_ve_def key_path_joins)

text \<open>
  Claim C3, at a path with an array position: for the violation at \<^verbatim>\<open>items[0]\<close> no block
  is formatted, \<^verbatim>\<open>str.join\<close> raises \<^verbatim>\<open>TypeError\<close> on the integer.
\<close>

theorem format_ve_index_path_raises:
  "format_ve dumps \<lparr>message = m, absolute_path = [Key ''items'', Index 0], instance_value = v\<rparr>
     = Inl TypeError"
  by (simp add: format_ve_def join_path_def)

text \<open>
  Claim C1, at a violation inside an array: for the instance \<^verbatim>\<open>{"items": [1]}\<close> under
  the schema \<^verbatim>\<open>{"properties": {"items": {"items": {"type": "string"}}}}\<close> the engine
  yields one violation, with the path \<^verbatim>\<open>deque(['items', 0])\<close>. \<^verbatim>\<open>validate_json\<close> returns
  no error for it, it raises \<^verbatim>\<open>TypeError\<close>.
\<close>

theorem validate_json_index_path_raises:
  "validate_json
     (\<lambda>inst schema. Inr [\<lparr>message = ''1 is not of type '' @ [quote] @ ''string'' @ [quote],
                            absolute_path = [Key ''items'', Index 0], instance_value = 1 :: int\<rparr>])
     dumps inst schema = Inl TypeError"
  by (simp add: validate_json_def format_ve_def join_path_def)

text \<open>
  \<^verbatim>\<open>validate_json\<close> returns \<^verbatim>\<open>None\<close> exactly when the engine finds no violation.
\<close>

lemma validate_json_none_iff:
  assumes "iter_errors inst schema = Inr found"
  shows "validate_json iter_errors dumps inst schema = Inr None \<longleftrightarrow> found = []"
proof (cases "formatted_errors dumps (sort_key sort_key_ve found)")
  case (Inl exc)
  then have "found \<noteq> []" by auto
  with Inl assms show ?thesis by (simp add: validate_json_def)
next
  case (Inr blocks)
  then have "length blocks = length found"
    using formatted_errors_length [OF Inr] by simp
  then have "blocks = [] \<longleftrightarrow> found = []" by auto
  with Inr assms show ?thesis by (simp add: validate_json_def)
qed

text \<open>
  \<^verbatim>\<open>validate_json\<close> raises exactly when \<^verbatim>\<open>format\<close> raises on one of the violations, that
  is when a path holds an array position or \<^verbatim>\<open>json.dumps\<close> raises on a value; what it raises
  is what \<^verbatim>\<open>format\<close> raised on a violation.
\<close>

lemma validate_json_raises_iff:
  assumes "iter_errors inst schema = Inr found"
  shows "((\<exists>exc. validate_json iter_errors dumps inst schema = Inl exc) \<longleftrightarrow>
            (\<exists>e \<in> set found. \<exists>exc. format_ve dumps e = Inl exc))
       \<and> (validate_json iter_errors dumps inst schema = Inl exc \<longrightarrow>
            (\<exists>e \<in> set found. format_ve dumps e = Inl exc))"
proof -
  have v: "validate_json iter_errors dumps inst schema = Inl x \<longleftrightarrow>
          formatted_errors dumps (sort_key sort_key_ve found) = Inl x" for x
    using assms
    by (cases "formatted_errors dumps (sort_key sort_key_ve found)")
       (simp_all add: validate_json_def)
  have a: "(\<exists>exc. validate_json iter_errors dumps inst schema = Inl exc) \<longleftrightarrow>
            (\<exists>e \<in> set found. \<exists>exc. format_ve dumps e = Inl exc)"
    unfolding v formatted_errors_raises_iff by simp
  have b: "validate_json iter_errors dumps inst schema = Inl exc \<longrightarrow>
            (\<exists>e \<in> set found. format_ve dumps e = Inl exc)"
  proof
    assume "validate_json iter_errors dumps inst schema = Inl exc"
    then have "formatted_errors dumps (sort_key sort_key_ve found) = Inl exc" by (simp only: v)
    then have "\<exists>e \<in> set (sort_key sort_key_ve found). format_ve dumps e = Inl exc"
      by (rule formatted_errors_raises)
    then show "\<exists>e \<in> set found. format_ve dumps e = Inl exc" by simp
  qed
  from a b show ?thesis by (intro conjI)
qed

text \<open>
  Where the order of the engine does not show: two runs in which the engine yields the
  same violations in different orders give the same result, provided that violations with
  the same sort key are formatted alike (in particular when the normalised messages are
  pairwise distinct).
\<close>

lemma validate_json_order_independent:
  assumes e1: "engine1 inst schema = Inr xs"
    and e2: "engine2 inst schema = Inr ys"
    and same: "mset xs = mset ys"
    and ties: "\<forall>a\<in>set xs. \<forall>b\<in>set xs.
                 sort_key_ve a = sort_key_ve b \<longrightarrow> format_ve dumps a = format_ve dumps b"
  shows "validate_json engine1 dumps inst schema = validate_json engine2 dumps inst schema"
proof -
  have "map (format_ve dumps) (sort_key sort_key_ve xs) = map (format_ve dumps) (sort_key sort_key_ve ys)"
    using same ties by (rule map_sort_key_cong)
  then have "formatted_errors dumps (sort_key sort_key_ve xs) = formatted_errors dumps (sort_key sort_key_ve ys)"
    by (rule formatted_errors_cong)
  then show ?thesis using e1 e2 by (simp add: validate_json_def)
qed

text \<open>
  Violations with the same sort key keep the order in which the engine yields them.
\<close>

lemma sorted_violations_stable:
  "filter (\<lambda>e. sort_key_ve e = k) (sort_key sort_key_ve found) =
   filter (\<lambda>e. sort_key_ve e = k) found"
  by (rule sort_key_stable)

lemma two_violations_report:
  "validate_json
     (\<lambda>inst schema. Inr [\<lparr>message = ''b is bad'', absolute_path = [Key ''k''], instance_value = 1 :: int\<rparr>,
                          \<lparr>message = ''a is bad'', absolute_path = [], instance_value = 2\<rparr>])
     (\<lambda>v. Inr (if v = 1 then ''1'' else ''2'')) () ()
   = Inr (Some (DefaultError
       (''Error: a is bad'' @ [newline] @ ''Value: 2'' @ [newline, newline] @
        ''Error: b is bad'' @ [newline] @ ''Path: k'' @ [newline] @ ''Value: 1'')))"
  by (simp add: validate_json_def format_ve_def join_path_def sort_key_ve_def six_u_def
        hack_error_message_fix_def opener_def py_isspace_def quote_def)

lemma validate_json_blocks_sorted_example:
  "\<exists>ordered blocks.
     mset ordered = mset [\<lparr>message = ''b is bad'', absolute_path = [Key ''k''], instance_value = 1 :: int\<rparr>,
                          \<lparr>message = ''a is bad'', absolute_path = [], instance_value = 2\<rparr>]
   \<and> formatted_errors (\<lambda>v. Inr (if v = 1 then ''1'' else ''2'')) ordered = Inr blocks
   \<and> length blocks = 2
   \<and> ''Error: a is bad'' @ [newline] @ ''Value: 2'' @ [newline, newline] @
       ''Error: b is bad'' @ [newline] @ ''Path: k'' @ [newline] @ ''Value: 1''
       = str_join [newline, newline] blocks
   \<and> sorted (map error_line ordered)"
proof -
  let ?found = "[\<lparr>message = ''b is bad'', absolute_path = [Key ''k''], instance_value = 1 :: int\<rparr>,
                 \<lparr>message = ''a is bad'', absolute_path = [], instance_value = 2\<rparr>]"
  have h: "(\<lambda>inst schema. Inr ?found) () () = Inr ?found" by simp
  from validate_json_blocks_sorted
    [of "\<lambda>inst schema. Inr ?found" "()" "()" ?found "\<lambda>v. Inr (if v = 1 then ''1'' else ''2'')", OF h two_violations_report]
  obtain ordered blocks where
    "mset ordered = mset ?found"
    "formatted_errors (\<lambda>v. Inr (if v = 1 then ''1'' else ''2'')) ordered = Inr blocks"
    "length blocks = length ?found"
    "''Error: a is bad'' @ [newline] @ ''Value: 2'' @ [newline, newline] @
       ''Error: b is bad'' @ [newline] @ ''Path: k'' @ [newline] @ ''Value: 1''
       = str_join [newline, newline] blocks"
    "sorted (map error_line ordered)"
    by blast
  then show ?thesis
    by (intro exI [of _ ordered] exI [of _ blocks]) simp
qed

text \<open>
  Claim C8, at two violations with the same message: for the instance
  \<^verbatim>\<open>{"a": 1, "b": 1}\<close> under the schema
  \<^verbatim>\<open>{"properties": {"a": {"type": "string"}, "b": {"type": "string"}}}\<close> the engine yields
  the same two violations in one run with \<^verbatim>\<open>a\<close> first and in another with \<^verbatim>\<open>b\<close> first.
  The sort key is the message alone and the sort is stable, so the two runs return
  different reports: each has its blocks in the order of the engine.
\<close>

theorem validate_json_order_counterexample:
  "validate_json
     (\<lambda>inst schema. Inr
        [\<lparr>message = ''1 is not of type '' @ [quote] @ ''string'' @ [quote],
          absolute_path = [Key ''a''], instance_value = 1 :: int\<rparr>,
         \<lparr>message = ''1 is not of type '' @ [quote] @ ''string'' @ [quote],
          absolute_path = [Key ''b''], instance_value = 1\<rparr>])
     (\<lambda>v. Inr ''1'') () ()
   = Inr (Some (DefaultError
       (''Error: 1 is not of type '' @ [quote] @ ''string'' @ [quote, newline] @
        ''Path: a'' @ [newline] @ ''Value: 1'' @ [newline, newline] @
        ''Error: 1 is not of type '' @ [quote] @ ''string'' @ [quote, newline] @
        ''Path: b'' @ [newline] @ ''Value: 1'')))
   \<and> validate_json
     (\<lambda>inst schema. Inr
        [\<lparr>message = ''1 is not of type '' @ [quote] @ ''string'' @ [quote],
          absolute_path = [Key ''b''], instance_value = 1 :: int\<rparr>,
         \<lparr>message = ''1 is not of type '' @ [quote] @ ''string'' @ [quote],
          absolute_path = [Key ''a''], instance_value = 1\<rparr>])
     (\<lambda>v. Inr ''1'') () ()
   = Inr (Some (DefaultError
       (''Error: 1 is not of type '' @ [quote] @ ''string'' @ [quote, newline] @
        ''Path: b'' @ [newline] @ ''Value: 1'' @ [newline, newline] @
        ''Error: 1 is not of type '' @ [quote] @ ''string'' @ [quote, newline] @
        ''Path: a'' @ [newline] @ ''Value: 1'')))"
  by (simp add: validate_json_def format_ve_def join_path_def sort_key_ve_def six_u_def
        hack_error_message_fix_def opener_def py_isspace_def quote_def)

lemma validate_json_order_independent_example:
  "validate_json
     (\<lambda>inst schema. Inr [\<lparr>message = ''b is bad'', absolute_path = [Key ''k''], instance_value = 1 :: int\<rparr>,
                          \<lparr>message = ''a is bad'', absolute_path = [], instance_value = 2\<rparr>])
     (\<lambda>v. Inr (if v = 1 then ''1'' else ''2'')) () ()
   = validate_json
     (\<lambda>inst schema. Inr [\<lparr>message = ''a is bad'', absolute_path = [], instance_value = 2\<rparr>,
                          \<lparr>message = ''b is bad'', absolute_path = [Key ''k''], instance_value = 1 :: int\<rparr>])
     (\<lambda>v. Inr (if v = 1 then ''1'' else ''2'')) () ()"
proof -
  let ?b = "\<lparr>message = ''b is bad'', absolute_path = [Key ''k''], instance_value = 1 :: int\<rparr>"
  let ?a = "\<lparr>message = ''a is bad'', absolute_path = [], instance_value = 2 :: int\<rparr>"
  have h1: "(\<lambda>inst schema. Inr [?b, ?a]) () () = Inr [?b, ?a]" by simp
  have h2: "(\<lambda>inst schema. Inr [?a, ?b]) () () = Inr [?a, ?b]" by simp
  have h3: "mset [?b, ?a] = mset [?a, ?b]" by simp
  have h4: "\<forall>x\<in>set [?b, ?a]. \<forall>y\<in>set [?b, ?a].
              sort_key_ve x = sort_key_ve y \<longrightarrow>
              format_ve (\<lambda>v. Inr (if v = 1 then ''1'' else ''2'')) x = format_ve (\<lambda>v. Inr (if v = 1 then ''1'' else ''2'')) y"
    by (simp add: sort_key_ve_def six_u_def hack_error_message_fix_def)
  show ?thesis
    by (rule validate_json_order_independent
          [of "\<lambda>inst schema. Inr [?b, ?a]" "()" "()" "[?b, ?a]" "\<lambda>inst schema. Inr [?a, ?b]" "[?a, ?b]",
           OF h1 h2 h3 h4])
qed

lemma validate_json_none_iff_example:
  "validate_json (\<lambda>inst schema. Inr ([] :: int validation_error list)) (\<lambda>v. Inr ''1'') () () = Inr None"
proof -
  have h: "(\<lambda>inst schema. Inr ([] :: int validation_error list)) () () = Inr []" by simp
  show ?thesis
    using validate_json_none_iff [of "\<lambda>inst schema. Inr ([] :: int validation_error list)" "()" "()" "[]", OF h]
    by simp
qed

section \<open>Properties of which\<close>

lemma str_rstrip_nonempty:
  assumes "\<exists>c \<in> set s. c \<notin> set chars"
  shows "str_rstrip chars s \<noteq> []"
proof -
  from assms obtain c where c: "c \<in> set (rev s)" "c \<notin> set chars" by auto
  then have "dropWhile (\<lambda>c. c \<in> set chars) (rev s) \<noteq> []"
    by auto
  then show ?thesis by (simp add: str_rstrip_def)
qed

lemma os_path_split_head:
  "fst (os_path_split p) \<noteq> [] \<longleftrightarrow> CHR ''/'' \<in> set p"
proof -
  define i where "i = length p - length (takeWhile (\<lambda>c. c \<noteq> CHR ''/'') (rev p))"
  define head where "head = take i p"
  have le: "length (takeWhile (\<lambda>c. c \<noteq> CHR ''/'') (rev p)) \<le> length p"
    using length_takeWhile_le [of "\<lambda>c. c \<noteq> CHR ''/''" "rev p"] by simp
  have full: "length (takeWhile (\<lambda>c. c \<noteq> CHR ''/'') (rev p)) = length p \<longleftrightarrow> CHR ''/'' \<notin> set p"
  proof
    assume "length (takeWhile (\<lambda>c. c \<noteq> CHR ''/'') (rev p)) = length p"
    then have "length (takeWhile (\<lambda>c. c \<noteq> CHR ''/'') (rev p)) = length (rev p)" by simp
    then have "takeWhile (\<lambda>c. c \<noteq> CHR ''/'') (rev p) = rev p"
      by (metis takeWhile_eq_take take_all order_refl)
    then have "\<forall>c \<in> set (rev p). c \<noteq> CHR ''/''" by simp
    then show "CHR ''/'' \<notin> set p" by auto
  next
    assume "CHR ''/'' \<notin> set p"
    then have "takeWhile (\<lambda>c. c \<noteq> CHR ''/'') (rev p) = rev p"
      by auto
    then show "length (takeWhile (\<lambda>c. c \<noteq> CHR ''/'') (rev p)) = length p"
      by (metis length_rev)
  qed
  have head_empty: "head = [] \<longleftrightarrow> CHR ''/'' \<notin> set p"
  proof -
    have "head = [] \<longleftrightarrow> i = 0 \<or> p = []" by (simp add: head_def)
    also have "\<dots> \<longleftrightarrow> length (takeWhile (\<lambda>c. c \<noteq> CHR ''/'') (rev p)) = length p"
      using le by (auto simp: i_def)
    finally show ?thesis using full by simp
  qed
  have split: "fst (os_path_split p) =
      (if head \<noteq> [] \<and> head \<noteq> replicate (length head) (CHR ''/'') then str_rstrip ''/'' head else head)"
    by (simp add: os_path_split_def Let_def i_def head_def)
  show ?thesis
  proof (cases "head \<noteq> [] \<and> head \<noteq> replicate (length head) (CHR ''/'')")
    case True
    then have "\<exists>c \<in> set head. c \<noteq> CHR ''/''"
      by (metis replicate_length_same)
    then have "\<exists>c \<in> set head. c \<notin> set ''/''" by simp
    then have "str_rstrip ''/'' head \<noteq> []" by (rule str_rstrip_nonempty)
    with True split head_empty show ?thesis by simp
  next
    case False
    with split head_empty show ?thesis by auto
  qed
qed

lemma which_loop_find:
  "which_loop os program paths =
     find (is_exe os) (map (\<lambda>path. os_path_join (str_strip [CHR 0x22] path) program) paths)"
  by (induction paths) (simp_all add: Let_def)

lemma which_unfold:
  "which os PATH_ENV program =
     (if CHR ''/'' \<in> set program then (if is_exe os program then Some program else None)
      else (case environ os PATH_ENV of
              None \<Rightarrow> None
            | Some search_path \<Rightarrow> which_loop os program (str_split (CHR '':'') search_path)))"
proof -
  obtain h t where ht: "os_path_split program = (h, t)" by (cases "os_path_split program")
  then have "h \<noteq> [] \<longleftrightarrow> CHR ''/'' \<in> set program"
    using os_path_split_head [of program] by simp
  with ht show ?thesis by (simp add: which_def)
qed

lemma str_split_nonempty: "str_split sep s \<noteq> []"
  by (induction s) (auto split: list.splits)

text \<open>
  \<^verbatim>\<open>split\<close> cuts at every separator: joining the pieces with the separator gives the
  string back, and no piece holds the separator.
\<close>

lemma str_split_join: "str_join [sep] (str_split sep s) = s"
proof (induction s)
  case Nil
  then show ?case by simp
next
  case (Cons c cs)
  obtain piece pieces where pp: "str_split sep cs = piece # pieces"
    using str_split_nonempty [of sep cs] by (cases "str_split sep cs") auto
  show ?case
  proof (cases "c = sep")
    case True
    with Cons pp show ?thesis by simp
  next
    case False
    with Cons pp show ?thesis by (cases pieces) simp_all
  qed
qed

lemma str_split_pieces: "piece \<in> set (str_split sep s) \<Longrightarrow> sep \<notin> set piece"
proof (induction s arbitrary: piece)
  case Nil
  then show ?case by simp
next
  case (Cons c cs)
  obtain q qs where pp: "str_split sep cs = q # qs"
    using str_split_nonempty [of sep cs] by (cases "str_split sep cs") auto
  show ?case
  proof (cases "c = sep")
    case True
    with Cons show ?thesis by auto
  next
    case False
    with Cons.prems pp have "piece = c # q \<or> piece \<in> set qs" by simp
    then show ?thesis
    proof
      assume "piece = c # q"
      moreover have "sep \<notin> set q" using Cons.IH [of q] pp by simp
      ultimately show ?thesis using False by simp
    next
      assume "piece \<in> set qs"
      then show ?thesis using Cons.IH [of piece] pp by simp
    qed
  qed
qed

text \<open>
  Claim C4, as amended. What \<^verbatim>\<open>which\<close> returns is a regular file that may be executed. A
  name with a path separator is tested as it is and returned unchanged, whatever the
  environment holds. A name without one is joined to each entry of the search path (the
  entry without its surrounding double quotes) in order, and the first joined path that is
  an executable file is returned; without the variable, or without such an entry, the
  result is \<^verbatim>\<open>None\<close>. The returned path is as absolute as the name or the entry is.
\<close>

theorem which_result:
  "(which os PATH_ENV program = Some p \<longrightarrow> isfile os p \<and> access_X_OK os p)
   \<and> (CHR ''/'' \<in> set program \<longrightarrow>
        which os PATH_ENV program =
          (if isfile os program \<and> access_X_OK os program then Some program else None))
   \<and> (CHR ''/'' \<notin> set program \<longrightarrow>
        which os PATH_ENV program =
          (case environ os PATH_ENV of
             None \<Rightarrow> None
           | Some search_path \<Rightarrow>
               find (\<lambda>f. isfile os f \<and> access_X_OK os f)
                 (map (\<lambda>entry. os_path_join (str_strip [CHR 0x22] entry) program)
                    (str_split (CHR '':'') search_path))))"
proof -
  have exe: "is_exe os = (\<lambda>f. isfile os f \<and> access_X_OK os f)"
    by (rule ext) (simp add: is_exe_def)
  have a: "which os PATH_ENV program = Some p \<longrightarrow> isfile os p \<and> access_X_OK os p"
  proof
    assume "which os PATH_ENV program = Some p"
    then have "is_exe os p"
      by (auto simp: which_unfold which_loop_find find_Some_iff split: if_splits option.splits)
    then show "isfile os p \<and> access_X_OK os p" by (simp add: is_exe_def)
  qed
  have b: "CHR ''/'' \<in> set program \<longrightarrow>
        which os PATH_ENV program =
          (if isfile os program \<and> access_X_OK os program then Some program else None)"
    by (simp add: which_unfold is_exe_def)
  have c: "CHR ''/'' \<notin> set program \<longrightarrow>
        which os PATH_ENV program =
          (case environ os PATH_ENV of
             None \<Rightarrow> None
           | Some search_path \<Rightarrow>
               find (\<lambda>f. isfile os f \<and> access_X_OK os f)
                 (map (\<lambda>entry. os_path_join (str_strip [CHR 0x22] entry) program)
                    (str_split (CHR '':'') search_path)))"
    by (simp add: which_unfold which_loop_find exe split: option.splits)
  from a b c show ?thesis by (intro conjI)
qed

text \<open>
  Claim C4 as stated fails on "absolute": a relative name with a separator is returned
  as it is.
\<close>

theorem which_relative_counterexample:
  "which \<lparr>isfile = (\<lambda>f. f = ''bin/tool''), access_X_OK = (\<lambda>f. f = ''bin/tool''), environ = Map.empty\<rparr>
     ''PATH'' ''bin/tool'' = Some ''bin/tool''
   \<and> \<not> os_path_isabs ''bin/tool''"
  by (simp add: which_unfold is_exe_def os_path_isabs_def)

theorem which_result_witness:
  "which \<lparr>isfile = (\<lambda>f. f = ''/opt/x/tool'' \<or> f = ''/srv/tool''), access_X_OK = (\<lambda>f. True),
           environ = [''PATH'' \<mapsto> ''/usr/bin:/opt/x/:/srv'']\<rparr> ''PATH'' ''tool'' = Some ''/opt/x/tool''
   \<and> isfile \<lparr>isfile = (\<lambda>f. f = ''/opt/x/tool'' \<or> f = ''/srv/tool''), access_X_OK = (\<lambda>f. True),
           environ = [''PATH'' \<mapsto> ''/usr/bin:/opt/x/:/srv'']\<rparr> ''/opt/x/tool''"
proof -
  let ?os = "\<lparr>isfile = (\<lambda>f. f = ''/opt/x/tool'' \<or> f = ''/srv/tool''), access_X_OK = (\<lambda>f. True),
           environ = [''PATH'' \<mapsto> ''/usr/bin:/opt/x/:/srv'']\<rparr>"
  note r = which_result [of ?os "''PATH''" "''tool''" "''/opt/x/tool''"]
  have nosep: "CHR ''/'' \<notin> set ''tool''" by simp
  from r nosep have "which ?os ''PATH'' ''tool'' =
      (case environ ?os ''PATH'' of
             None \<Rightarrow> None
           | Some search_path \<Rightarrow>
               find (\<lambda>f. isfile ?os f \<and> access_X_OK ?os f)
                 (map (\<lambda>entry. os_path_join (str_strip [CHR 0x22] entry) ''tool'')
                    (str_split (CHR '':'') search_path)))"
    by blast
  also have "\<dots> = Some ''/opt/x/tool''"
    by (simp add: os_path_join_def str_strip_def str_rstrip_def)
  finally have found: "which ?os ''PATH'' ''tool'' = Some ''/opt/x/tool''" .
  with r have "isfile ?os ''/opt/x/tool''" by blast
  with found show ?thesis by blast
qed

section \<open>Properties of configure_logger\<close>

lemma basicConfig_outcome:
  "fst (basicConfig fmt stream level st) =
     (if root_handlers st = [] \<and> name_to_level level = None then Inl ValueError else Inr ())"
  by (simp add: basicConfig_def Let_def split: option.splits)

lemma basicConfig_fresh:
  "root_handlers st = [] \<Longrightarrow> name_to_level level = Some l \<Longrightarrow>
   basicConfig fmt stream level st =
     (Inr (), st\<lparr>root_handlers := [(stream, fmt)], root_level := l\<rparr>)"
  by (simp add: basicConfig_def)

text \<open>
  Claim C5, as amended. Without a level, logging is disabled up to \<^verbatim>\<open>CRITICAL\<close> and the
  result is \<^verbatim>\<open>None\<close>. With a string, the test is membership in the valid values as they
  are written, so it distinguishes upper and lower case; the string is put into upper case
  only afterwards, for the level given to \<^verbatim>\<open>basicConfig\<close>. A member gives \<^verbatim>\<open>None\<close>
  (unless the root logger has no handler yet and the upper-case name is no level, where
  \<^verbatim>\<open>basicConfig\<close> raises \<^verbatim>\<open>ValueError\<close>); any other string gives the error that names
  the value and the valid values, and leaves the logging state as it was. When every valid
  value is a level name in upper case, the result is \<^verbatim>\<open>None\<close> exactly for the members.
\<close>

theorem configure_logger_result:
  "configure_logger VALID repr_str repr_values None st = (Inr None, st\<lparr>manager_disable := CRITICAL\<rparr>)
   \<and> (\<forall>level. level \<le> CRITICAL \<longrightarrow>
         \<not> isEnabledFor (snd (configure_logger VALID repr_str repr_values None st)) level)
   \<and> fst (configure_logger VALID repr_str repr_values (Some name) st) =
       (if name \<in> set VALID then
          (if root_handlers st = [] \<and> name_to_level (str_upper name) = None
           then Inl ValueError else Inr None)
        else Inr (Some (DefaultError
               (''Log level set to an unknown value '' @ repr_str name @
                ''. Valid values are '' @ repr_values VALID))))
   \<and> (name \<notin> set VALID \<longrightarrow> snd (configure_logger VALID repr_str repr_values (Some name) st) = st)
   \<and> (name \<in> set VALID \<longrightarrow> root_handlers st = [] \<longrightarrow> name_to_level (str_upper name) = Some l \<longrightarrow>
        snd (configure_logger VALID repr_str repr_values (Some name) st) =
          st\<lparr>root_handlers := [(''sys.stderr'', ''%(message)s'')], root_level := l\<rparr>)
   \<and> ((\<forall>v \<in> set VALID. name_to_level (str_upper v) \<noteq> None) \<longrightarrow>
        (fst (configure_logger VALID repr_str repr_values (Some name) st) = Inr None
           \<longleftrightarrow> name \<in> set VALID))"
proof -
  have none: "configure_logger VALID repr_str repr_values None st = (Inr None, st\<lparr>manager_disable := CRITICAL\<rparr>)"
    by (simp add: configure_logger_def logging_disable_def)
  have off: "\<forall>level. level \<le> CRITICAL \<longrightarrow>
         \<not> isEnabledFor (snd (configure_logger VALID repr_str repr_values None st)) level"
    by (simp add: none isEnabledFor_def)
  have res: "fst (configure_logger VALID repr_str repr_values (Some name) st) =
       (if name \<in> set VALID then
          (if root_handlers st = [] \<and> name_to_level (str_upper name) = None
           then Inl ValueError else Inr None)
        else Inr (Some (DefaultError
               (''Log level set to an unknown value '' @ repr_str name @
                ''. Valid values are '' @ repr_values VALID))))"
  proof (cases "name \<in> set VALID")
    case True
    obtain r st' where b: "basicConfig ''%(message)s'' ''sys.stderr'' (str_upper name) st = (r, st')"
      by (cases "basicConfig ''%(message)s'' ''sys.stderr'' (str_upper name) st")
    then have "r = (if root_handlers st = [] \<and> name_to_level (str_upper name) = None then Inl ValueError else Inr ())"
      using basicConfig_outcome [of "''%(message)s''" "''sys.stderr''" "str_upper name" st] by simp
    with True b show ?thesis by (simp add: configure_logger_def)
  next
    case False
    then show ?thesis by (simp add: configure_logger_def)
  qed
  have unchanged: "name \<notin> set VALID \<longrightarrow> snd (configure_logger VALID repr_str repr_values (Some name) st) = st"
    by (simp add: configure_logger_def)
  have configured: "name \<in> set VALID \<longrightarrow> root_handlers st = [] \<longrightarrow> name_to_level (str_upper name) = Some l \<longrightarrow>
        snd (configure_logger VALID repr_str repr_values (Some name) st) =
          st\<lparr>root_handlers := [(''sys.stderr'', ''%(message)s'')], root_level := l\<rparr>"
    by (simp add: configure_logger_def basicConfig_fresh)
  have member: "(\<forall>v \<in> set VALID. name_to_level (str_upper v) \<noteq> None) \<longrightarrow>
        (fst (configure_logger VALID repr_str repr_values (Some name) st) = Inr None
           \<longleftrightarrow> name \<in> set VALID)"
    unfolding res by auto
  from none off res unchanged configured member show ?thesis by (intro conjI)
qed

text \<open>
  Claim C5 as stated fails on "case-insensitive": with the valid values in upper case,
  \<^verbatim>\<open>info\<close> is refused although it equals \<^verbatim>\<open>INFO\<close> up to case, and with the valid
  values in lower case \<^verbatim>\<open>INFO\<close> is refused.
\<close>

theorem configure_logger_case_counterexample:
  "fst (configure_logger [''DEBUG'', ''INFO'', ''WARNING'', ''ERROR'', ''CRITICAL'']
          (\<lambda>s. [quote] @ s @ [quote])
          (\<lambda>vs. ''['' @ str_join '', '' (map (\<lambda>s. [quote] @ s @ [quote]) vs) @ '']'')
          (Some ''info'')
          \<lparr>manager_disable = 0, root_handlers = [], root_level = 30\<rparr>)
     = Inr (Some (DefaultError
         (''Log level set to an unknown value '' @ [quote] @ ''info'' @ [quote] @
          ''. Valid values are ['' @ [quote] @ ''DEBUG'' @ [quote] @ '', '' @ [quote] @ ''INFO'' @ [quote] @
          '', '' @ [quote] @ ''WARNING'' @ [quote] @ '', '' @ [quote] @ ''ERROR'' @ [quote] @
          '', '' @ [quote] @ ''CRITICAL'' @ [quote] @ '']'')))
   \<and> str_upper ''info'' = str_upper ''INFO''
   \<and> fst (configure_logger [''debug'', ''info'', ''warning'', ''error'', ''critical'']
          (\<lambda>s. [quote] @ s @ [quote]) (\<lambda>vs. ''[...]'') (Some ''INFO'')
          \<lparr>manager_disable = 0, root_handlers = [], root_level = 30\<rparr>)
     = Inr (Some (DefaultError
         (''Log level set to an unknown value '' @ [quote] @ ''INFO'' @ [quote] @
          ''. Valid values are [...]'')))"
  by (simp add: configure_logger_def str_upper_def upper_char_def)

theorem configure_logger_result_witness:
  "configure_logger [''DEBUG'', ''INFO'', ''WARNING'', ''ERROR'', ''CRITICAL'']
          (\<lambda>s. [quote] @ s @ [quote]) (\<lambda>vs. ''[]'') (Some ''INFO'')
          \<lparr>manager_disable = 0, root_handlers = [], root_level = 30\<rparr>
     = (Inr None, \<lparr>manager_disable = 0, root_handlers = [(''sys.stderr'', ''%(message)s'')], root_level = 20\<rparr>)
   \<and> \<not> isEnabledFor (snd (configure_logger [''DEBUG'', ''INFO'', ''WARNING'', ''ERROR'', ''CRITICAL'']
          (\<lambda>s. [quote] @ s @ [quote]) (\<lambda>vs. ''[]'') None
          \<lparr>manager_disable = 0, root_handlers = [], root_level = 30\<rparr>)) 40"
proof -
  let ?V = "[''DEBUG'', ''INFO'', ''WARNING'', ''ERROR'', ''CRITICAL'']"
  let ?st = "\<lparr>manager_disable = 0, root_handlers = [], root_level = 30\<rparr>"
  note r = configure_logger_result [of ?V "\<lambda>s. [quote] @ s @ [quote]" "\<lambda>vs. ''[]''" ?st "''INFO''" 20]
  have up: "str_upper ''INFO'' = ''INFO''"
    by (simp add: str_upper_def upper_char_def)
  have lvl: "name_to_level (str_upper ''INFO'') = Some 20"
    unfolding up by (simp add: name_to_level_def)
  have mem: "''INFO'' \<in> set ?V" by simp
  have h: "root_handlers ?st = []" by simp
  from r mem lvl h have a: "fst (configure_logger ?V (\<lambda>s. [quote] @ s @ [quote]) (\<lambda>vs. ''[]'') (Some ''INFO'') ?st) = Inr None"
    by simp
  from r mem lvl h have b: "snd (configure_logger ?V (\<lambda>s. [quote] @ s @ [quote]) (\<lambda>vs. ''[]'') (Some ''INFO'') ?st)
       = ?st\<lparr>root_handlers := [(''sys.stderr'', ''%(message)s'')], root_level := 20\<rparr>"
    by blast
  from r have "\<forall>level. level \<le> CRITICAL \<longrightarrow>
         \<not> isEnabledFor (snd (configure_logger ?V (\<lambda>s. [quote] @ s @ [quote]) (\<lambda>vs. ''[]'') None ?st)) level"
    by (rule conjunct2 [THEN conjunct1])
  moreover have "(40 :: int) \<le> CRITICAL" by (simp add: CRITICAL_def)
  ultimately have c: "\<not> isEnabledFor (snd (configure_logger ?V (\<lambda>s. [quote] @ s @ [quote]) (\<lambda>vs. ''[]'') None ?st)) 40"
    by blast
  from a b have "configure_logger ?V (\<lambda>s. [quote] @ s @ [quote]) (\<lambda>vs. ''[]'') (Some ''INFO'') ?st
     = (Inr None, \<lparr>manager_disable = 0, root_handlers = [(''sys.stderr'', ''%(message)s'')], root_level = 20\<rparr>)"
    by (simp add: prod_eq_iff)
  with c show ?thesis by (intro conjI)
qed

section \<open>Properties of load_json, load_jsons and parse_int\<close>

lemma under_simps: "under [] = []" "under (g # gs) = CHR ''_'' # g @ under gs"
  by (simp_all add: under_def)

lemma str_join_under: "str_join ''_'' (g # gs) = g @ under gs"
  by (induction gs arbitrary: g) (simp_all add: under_simps)

lemma digit_not_underscore: "is_digit c \<Longrightarrow> c \<noteq> CHR ''_''"
  by (auto simp: is_digit_def)

lemma digit_not_space: "is_digit c \<Longrightarrow> \<not> int_space c"
  by (auto simp: is_digit_def int_space_def)

lemma digit_not_sign: "is_digit c \<Longrightarrow> c \<noteq> CHR ''-'' \<and> c \<noteq> CHR ''+''"
  by (auto simp: is_digit_def)

lemma digits_value_digits:
  "list_all is_digit g \<Longrightarrow>
   digits_value acc (g @ rest) =
     digits_value (foldl (\<lambda>a c. 10 * a + digit_value c) acc g) rest"
proof (induction g arbitrary: acc)
  case Nil
  then show ?case by simp
next
  case (Cons c g)
  then have c: "is_digit c" "c \<noteq> CHR ''_''" by (simp_all add: digit_not_underscore)
  show ?case
  proof (cases "g @ rest")
    case Nil
    with c show ?thesis by simp
  next
    case (Cons d ds)
    have "digits_value acc (c # d # ds) = digits_value (10 * acc + digit_value c) (d # ds)"
      using c by simp
    with Cons Cons.IH [of "10 * acc + digit_value c"] Cons.prems show ?thesis by simp
  qed
qed

lemma digits_value_groups:
  "list_all digit_group gs \<Longrightarrow>
   digits_value acc (under gs) = Some (foldl (\<lambda>a c. 10 * a + digit_value c) acc (concat gs))"
proof (induction gs arbitrary: acc)
  case Nil
  then show ?case by (simp add: under_simps)
next
  case (Cons g gs)
  then obtain d g' where g: "g = d # g'" "is_digit d" "list_all is_digit g'"
    by (cases g) (auto simp: digit_group_def)
  have "digits_value acc (under (g # gs)) = digits_value (10 * acc + digit_value d) (g' @ under gs)"
    using g by (simp add: under_simps)
  also have "\<dots> = digits_value (foldl (\<lambda>a c. 10 * a + digit_value c) (10 * acc + digit_value d) g') (under gs)"
    using g by (simp add: digits_value_digits)
  also have "\<dots> = Some (foldl (\<lambda>a c. 10 * a + digit_value c) (foldl (\<lambda>a c. 10 * a + digit_value c) (10 * acc + digit_value d) g') (concat gs))"
    using Cons by simp
  finally show ?case using g by simp
qed

lemma digits_value_shape:
  "digits_value acc cs = Some v \<Longrightarrow>
   \<exists>g gs. cs = g @ under gs \<and> list_all is_digit g \<and> list_all digit_group gs"
proof (induction acc cs arbitrary: v rule: digits_value.induct)
  case (1 acc)
  have "[] = [] @ under [] \<and> list_all is_digit [] \<and> list_all digit_group []"
    by (simp add: under_simps)
  then show ?case by blast
next
  case (2 acc c)
  then have "is_digit c" by (simp split: if_splits)
  then have "[c] = [c] @ under [] \<and> list_all is_digit [c] \<and> list_all digit_group []"
    by (simp add: under_simps)
  then show ?case by blast
next
  case (3 acc c d cs)
  show ?case
  proof (cases "c = CHR ''_''")
    case True
    with "3.prems" have d: "is_digit d" and v: "digits_value (10 * acc + digit_value d) cs = Some v"
      by (simp_all split: if_splits)
    from "3.IH"(1) [OF True d v] obtain g gs where
      cs: "cs = g @ under gs" "list_all is_digit g" "list_all digit_group gs" by blast
    have "c # d # cs = [] @ under ((d # g) # gs) \<and> list_all is_digit []
        \<and> list_all digit_group ((d # g) # gs)"
      using True d cs by (simp add: under_simps digit_group_def)
    then show ?thesis by blast
  next
    case False
    with "3.prems" have c: "is_digit c" and v: "digits_value (10 * acc + digit_value c) (d # cs) = Some v"
      by (simp_all split: if_splits)
    from "3.IH"(2) [OF False c v] obtain g gs where
      cs: "d # cs = g @ under gs" "list_all is_digit g" "list_all digit_group gs" by blast
    have "c # d # cs = (c # g) @ under gs \<and> list_all is_digit (c # g) \<and> list_all digit_group gs"
      using c cs by simp
    then show ?thesis by blast
  qed
qed

lemma filter_digits_under:
  "list_all digit_group gs \<Longrightarrow> filter is_digit (under gs) = concat gs"
proof (induction gs)
  case Nil
  then show ?case by (simp add: under_simps)
next
  case (Cons g gs)
  then have "filter is_digit g = g"
    by (simp add: digit_group_def list_all_iff)
  moreover have "\<not> is_digit (CHR ''_'')" by (simp add: is_digit_def)
  ultimately show ?case using Cons by (simp add: under_simps)
qed

lemma unsigned_value_iff:
  "unsigned_value m s = Some v \<longleftrightarrow>
     (\<exists>groups. groups \<noteq> [] \<and> list_all digit_group groups \<and> s = str_join ''_'' groups
        \<and> \<not> too_many_digits m (length (concat groups))
        \<and> v = decimal_value (concat groups))"
proof
  assume u: "unsigned_value m s = Some v"
  then obtain c cs where s: "s = c # cs" by (cases s) (simp_all add: unsigned_value_def)
  with u have c: "is_digit c"
    and few: "\<not> too_many_digits m (length (filter is_digit s))"
    and v: "digits_value (digit_value c) cs = Some v"
    by (simp_all add: unsigned_value_def split: if_splits)
  from digits_value_shape [OF v] obtain g gs where
    cs: "cs = g @ under gs" "list_all is_digit g" "list_all digit_group gs" by blast
  let ?groups = "(c # g) # gs"
  have grp: "list_all digit_group ?groups" using c cs by (simp add: digit_group_def)
  have join: "s = str_join ''_'' ?groups" using s cs by (simp add: str_join_under)
  have "filter is_digit s = concat ?groups"
    using s c cs by (simp add: filter_digits_under list_all_iff)
  with few have lim: "\<not> too_many_digits m (length (concat ?groups))" by simp
  have "digits_value (digit_value c) cs =
      Some (foldl (\<lambda>a c. 10 * a + digit_value c) (foldl (\<lambda>a c. 10 * a + digit_value c) (digit_value c) g) (concat gs))"
    using cs by (simp add: digits_value_digits digits_value_groups)
  with v have "v = decimal_value (concat ?groups)" by (simp add: decimal_value_def)
  with grp join lim show "\<exists>groups. groups \<noteq> [] \<and> list_all digit_group groups \<and> s = str_join ''_'' groups
        \<and> \<not> too_many_digits m (length (concat groups))
        \<and> v = decimal_value (concat groups)"
    by blast
next
  assume "\<exists>groups. groups \<noteq> [] \<and> list_all digit_group groups \<and> s = str_join ''_'' groups
        \<and> \<not> too_many_digits m (length (concat groups))
        \<and> v = decimal_value (concat groups)"
  then obtain g gs where grp: "list_all digit_group (g # gs)" and s: "s = str_join ''_'' (g # gs)"
    and lim: "\<not> too_many_digits m (length (concat (g # gs)))"
    and v: "v = decimal_value (concat (g # gs))"
    by (metis list.exhaust)
  from grp obtain c g' where g: "g = c # g'" "is_digit c" "list_all is_digit g'" "list_all digit_group gs"
    by (cases g) (auto simp: digit_group_def)
  have s': "s = c # g' @ under gs" using s g by (simp add: str_join_under)
  have "filter is_digit s = concat (g # gs)"
    using s' g by (simp add: filter_digits_under list_all_iff)
  with lim have few: "\<not> too_many_digits m (length (filter is_digit s))" by simp
  have "digits_value (digit_value c) (g' @ under gs) =
      Some (foldl (\<lambda>a c. 10 * a + digit_value c) (foldl (\<lambda>a c. 10 * a + digit_value c) (digit_value c) g') (concat gs))"
    using g by (simp add: digits_value_digits digits_value_groups)
  then have "digits_value (digit_value c) (g' @ under gs) = Some v"
    using v g by (simp add: decimal_value_def)
  with s' g few show "unsigned_value m s = Some v"
    by (simp add: unsigned_value_def)
qed

lemma under_last:
  "list_all digit_group gs \<Longrightarrow> gs \<noteq> [] \<Longrightarrow> under gs \<noteq> [] \<and> is_digit (last (under gs))"
proof (induction gs)
  case Nil
  then show ?case by simp
next
  case (Cons g gs)
  then have g: "g \<noteq> []" "is_digit (last g)"
    by (auto simp: digit_group_def list_all_iff)
  show ?case
  proof (cases "gs = []")
    case True
    with g show ?thesis by (simp add: under_simps)
  next
    case False
    with Cons have "under gs \<noteq> []" "is_digit (last (under gs))" by simp_all
    then show ?thesis by (simp add: under_simps)
  qed
qed

lemma literal_body_ends:
  assumes "groups \<noteq> []" "list_all digit_group groups"
  shows "str_join ''_'' groups \<noteq> [] \<and> is_digit (hd (str_join ''_'' groups))
       \<and> is_digit (last (str_join ''_'' groups))"
proof -
  from assms obtain g gs where groups: "groups = g # gs" by (cases groups) auto
  with assms have g: "g \<noteq> []" "is_digit (hd g)" "is_digit (last g)" "list_all digit_group gs"
    by (auto simp: digit_group_def list_all_iff)
  show ?thesis
  proof (cases "gs = []")
    case True
    with g groups show ?thesis by simp
  next
    case False
    with g under_last [of gs] have "under gs \<noteq> []" "is_digit (last (under gs))" by simp_all
    with g groups show ?thesis by (simp add: str_join_under)
  qed
qed

lemma strip_frame:
  assumes b: "list_all int_space before" and a: "list_all int_space after"
    and t: "t \<noteq> []" "\<not> int_space (hd t)" "\<not> int_space (last t)"
  shows "strip_space (before @ t @ after) = t"
proof -
  have "dropWhile int_space (rev after @ (rev t @ rev before)) = dropWhile int_space (rev t @ rev before)"
    using a by (intro dropWhile_append2) (simp add: list_all_iff)
  then have "dropWhile int_space (rev (before @ t @ after)) = dropWhile int_space (rev t @ rev before)"
    by simp
  also have "\<dots> = rev t @ rev before"
    using t by (cases "rev t") (simp_all add: last_rev [symmetric] hd_rev)
  finally have "rev (dropWhile int_space (rev (before @ t @ after))) = before @ t" by simp
  moreover have "dropWhile int_space (before @ t) = dropWhile int_space t"
    using b by (intro dropWhile_append2) (simp add: list_all_iff)
  moreover have "dropWhile int_space t = t" using t by (cases t) simp_all
  ultimately show ?thesis by (simp add: strip_space_def)
qed

lemma strip_decomp:
  "\<exists>before after. s = before @ strip_space s @ after
      \<and> list_all int_space before \<and> list_all int_space after"
proof -
  define mid where "mid = rev (dropWhile int_space (rev s))"
  define after where "after = rev (takeWhile int_space (rev s))"
  define before where "before = takeWhile int_space mid"
  have "rev (takeWhile int_space (rev s) @ dropWhile int_space (rev s)) = rev (rev s)"
    by (simp only: takeWhile_dropWhile_id)
  then have s: "s = mid @ after"
    by (simp only: rev_append rev_rev_ident mid_def after_def)
  have m: "mid = before @ strip_space s"
    by (simp add: before_def strip_space_def mid_def)
  have "list_all int_space before" "list_all int_space after"
    by (auto simp: before_def after_def list_all_iff dest: set_takeWhileD)
  with s m show ?thesis by auto
qed

lemma strip_hd: "strip_space s = c # cs \<Longrightarrow> \<not> int_space c"
  using hd_dropWhile [of int_space "rev (dropWhile int_space (rev s))"]
  by (auto simp: strip_space_def)

lemma py_int_unfold:
  "py_int m s =
     (case strip_space s of
        [] \<Rightarrow> Inl ValueError
      | c # cs \<Rightarrow>
          if c = CHR ''-'' then
            (case unsigned_value m cs of None \<Rightarrow> Inl ValueError | Some n \<Rightarrow> Inr (- int n))
          else if c = CHR ''+'' then
            (case unsigned_value m cs of None \<Rightarrow> Inl ValueError | Some n \<Rightarrow> Inr (int n))
          else
            (case unsigned_value m (c # cs) of None \<Rightarrow> Inl ValueError | Some n \<Rightarrow> Inr (int n)))"
  by (cases "strip_space s") (simp_all add: py_int_def Let_def)

lemma py_int_literal:
  assumes "int_literal m s k"
  shows "py_int m s = Inr k"
proof -
  from assms obtain before sign groups after where
    s: "s = before @ sign @ str_join ''_'' groups @ after"
    and ws: "list_all int_space before" "list_all int_space after"
    and sign: "sign = [] \<or> sign = ''+'' \<or> sign = ''-''"
    and groups: "groups \<noteq> []" "list_all digit_group groups"
    and few: "\<not> too_many_digits m (length (concat groups))"
    and k: "k = (if sign = ''-'' then - int (decimal_value (concat groups))
              else int (decimal_value (concat groups)))"
    unfolding int_literal_def by blast
  let ?body = "str_join ''_'' groups"
  have body: "?body \<noteq> []" "is_digit (hd ?body)" "is_digit (last ?body)"
    using literal_body_ends [OF groups] by simp_all
  have u: "unsigned_value m ?body = Some (decimal_value (concat groups))"
    using groups few by (auto simp: unsigned_value_iff)
  obtain c cs where ccs: "?body = c # cs" using body by (cases ?body) auto
  with body have c: "is_digit c" by simp
  have nsp: "\<not> int_space (CHR ''+'')" "\<not> int_space (CHR ''-'')"
    by (simp_all add: int_space_def)
  have t: "sign @ ?body \<noteq> []" "\<not> int_space (hd (sign @ ?body))" "\<not> int_space (last (sign @ ?body))"
  proof -
    show "sign @ ?body \<noteq> []" using body by simp
    show "\<not> int_space (hd (sign @ ?body))"
      using sign body nsp by (auto simp: digit_not_space)
    show "\<not> int_space (last (sign @ ?body))"
      using body by (simp add: digit_not_space)
  qed
  have "strip_space (before @ (sign @ ?body) @ after) = sign @ ?body"
    using ws t by (rule strip_frame)
  then have strip: "strip_space s = sign @ ?body" using s by simp
  from sign show ?thesis
  proof (elim disjE)
    assume "sign = []"
    with strip ccs u k c show ?thesis
      by (simp add: py_int_unfold digit_not_sign)
  next
    assume "sign = ''+''"
    with strip u k show ?thesis by (simp add: py_int_unfold)
  next
    assume "sign = ''-''"
    with strip u k show ?thesis by (simp add: py_int_unfold)
  qed
qed

lemma literal_py_int:
  assumes "py_int m s = Inr k"
  shows "int_literal m s k"
proof -
  obtain before after where s: "s = before @ strip_space s @ after"
    and ws: "list_all int_space before" "list_all int_space after"
    using strip_decomp by blast
  from assms obtain c cs where t: "strip_space s = c # cs"
    by (cases "strip_space s") (simp_all add: py_int_unfold)
  have lit: "int_literal m s j"
    if u: "unsigned_value m body = Some n" and tt: "strip_space s = sign @ body"
      and sg: "sign = [] \<or> sign = ''+'' \<or> sign = ''-''"
      and j: "j = (if sign = ''-'' then - int n else int n)" for body n sign j
  proof -
    from u obtain groups where g: "groups \<noteq> []" "list_all digit_group groups"
      "body = str_join ''_'' groups" "\<not> too_many_digits m (length (concat groups))"
      "n = decimal_value (concat groups)"
      by (auto simp: unsigned_value_iff)
    have "s = before @ sign @ str_join ''_'' groups @ after"
      using s tt g by simp
    with ws sg g j show ?thesis
      unfolding int_literal_def by blast
  qed
  show ?thesis
  proof (cases "c = CHR ''-''")
    case True
    with assms t obtain n where "unsigned_value m cs = Some n" "k = - int n"
      by (auto simp: py_int_unfold split: option.splits)
    then show ?thesis using lit [of cs n "''-''" k] t True by simp
  next
    case minus: False
    show ?thesis
    proof (cases "c = CHR ''+''")
      case True
      with assms t obtain n where "unsigned_value m cs = Some n" "k = int n"
        by (auto simp: py_int_unfold split: option.splits)
      then show ?thesis using lit [of cs n "''+''" k] t True by simp
    next
      case False
      with minus assms t obtain n where "unsigned_value m (c # cs) = Some n" "k = int n"
        by (auto simp: py_int_unfold split: option.splits)
      then show ?thesis using lit [of "c # cs" n "[]" k] t by simp
    qed
  qed
qed

text \<open>
  What \<^verbatim>\<open>int\<close> accepts is exactly the decimal literals, and what it returns is the number
  that the literal denotes.
\<close>

lemma py_int_iff: "py_int m s = Inr k \<longleftrightarrow> int_literal m s k"
  using py_int_literal literal_py_int by blast

lemma py_int_raises: "py_int m s = Inl exc \<Longrightarrow> exc = ValueError"
  by (auto simp: py_int_unfold split: list.splits if_splits option.splits)

lemma py_int_examples:
  "py_int m ''42'' = Inr 42" "py_int m ''abc'' = Inl ValueError"
  "py_int m '' -1_000 '' = Inr (- 1000)" "py_int m ''+7'' = Inr 7" "py_int m ''007'' = Inr 7"
  "py_int m ''1__0'' = Inl ValueError" "py_int m [] = Inl ValueError"
  "py_int m ''4 2'' = Inl ValueError" "py_int m ''_1'' = Inl ValueError"
  "py_int m ''1_'' = Inl ValueError" "py_int m ''-'' = Inl ValueError"
  "py_int m [CHR 0x1C, CHR ''7''] = Inl ValueError" "py_int m [CHR 0xA0, CHR ''7''] = Inr 7"
  by (simp_all add: py_int_def strip_space_def unsigned_value_def is_digit_def digit_value_def
        int_space_def too_many_digits_def)

lemma py_int_digit_limit:
  "py_int 4300 (replicate 4301 (CHR ''1'')) = Inl ValueError"
proof -
  have r: "replicate 4301 (CHR ''1'') = CHR ''1'' # replicate 4300 (CHR ''1'')"
    by (simp add: replicate_Suc [symmetric] del: replicate_Suc)
  have sp: "\<not> int_space (CHR ''1'')" by (simp add: int_space_def)
  have d: "is_digit (CHR ''1'')" by (simp add: is_digit_def)
  have "strip_space (replicate 4301 (CHR ''1'')) = replicate 4301 (CHR ''1'')"
    using sp by (simp add: strip_space_def dropWhile_replicate)
  moreover have "unsigned_value 4300 (replicate 4301 (CHR ''1'')) = None"
    unfolding r using d by (simp add: unsigned_value_def too_many_digits_def)
  ultimately show ?thesis
    unfolding py_int_def Let_def r by simp
qed

lemma load_jsons_unfold:
  "load_jsons json_loads v =
     Inr (case json_loads v of
            Inl exc \<Rightarrow> (None, Some (DefaultError ''Error loading JSON.''))
          | Inr x \<Rightarrow> (x, None))"
  by (simp add: load_jsons_def try_except_def split: sum.splits)

lemma load_json_unfold:
  "load_json json_loads reader =
     Inr (case reader of
            Inl exc \<Rightarrow> (None, Some (DefaultError ''Error loading JSON.''))
          | Inr t \<Rightarrow>
              (case json_loads t of
                 Inl exc \<Rightarrow> (None, Some (DefaultError ''Error loading JSON.''))
               | Inr x \<Rightarrow> (x, None)))"
  by (simp add: load_json_def try_except_def split: sum.splits)

lemma parse_int_unfold:
  "parse_int m s =
     Inr (case py_int m s of
            Inl exc \<Rightarrow> (None, Some (DefaultError ''Error parsing string as int''))
          | Inr n \<Rightarrow> (Some n, None))"
  by (simp add: parse_int_def try_except_def split: sum.splits)

lemma parse_int_literal_iff:
  "parse_int m s = Inr (Some k, None) \<longleftrightarrow> int_literal m s k"
  unfolding py_int_iff [symmetric] parse_int_unfold
  by (cases "py_int m s") simp_all

lemma parse_int_error_iff:
  "parse_int m s = Inr (None, Some (DefaultError ''Error parsing string as int''))
     \<longleftrightarrow> \<not> (\<exists>k. int_literal m s k)"
  unfolding py_int_iff [symmetric] parse_int_unfold
  by (cases "py_int m s") simp_all

text \<open>
  Claim C6. For every decoder, reader and string the three wrappers return a pair and
  raise nothing. The JSON wrappers: when the reader or the decoder raises, the pair is
  \<^verbatim>\<open>None\<close> with the error of the fixed message, and when they return, the pair is the
  decoded value with \<^verbatim>\<open>None\<close>. \<^verbatim>\<open>parse_int\<close>: the pair is the number \<open>k\<close> with \<^verbatim>\<open>None\<close>
  exactly when the string is a decimal literal that denotes \<open>k\<close>, and it is \<^verbatim>\<open>None\<close> with the
  error of the fixed message exactly when the string is no such literal; it is 42 for the
  string 42 and the error for the string abc.
\<close>

theorem wrappers_never_raise:
  "load_json json_loads reader =
     Inr (case reader of
            Inl exc \<Rightarrow> (None, Some (DefaultError ''Error loading JSON.''))
          | Inr t \<Rightarrow>
              (case json_loads t of
                 Inl exc \<Rightarrow> (None, Some (DefaultError ''Error loading JSON.''))
               | Inr x \<Rightarrow> (x, None)))
   \<and> load_jsons json_loads v =
     Inr (case json_loads v of
            Inl exc \<Rightarrow> (None, Some (DefaultError ''Error loading JSON.''))
          | Inr x \<Rightarrow> (x, None))
   \<and> (parse_int m s = Inr (Some k, None) \<longleftrightarrow> int_literal m s k)
   \<and> (parse_int m s = Inr (None, Some (DefaultError ''Error parsing string as int''))
        \<longleftrightarrow> \<not> (\<exists>j. int_literal m s j))
   \<and> parse_int m ''42'' = Inr (Some 42, None)
   \<and> parse_int m ''abc'' = Inr (None, Some (DefaultError ''Error parsing string as int''))"
proof -
  have a: "parse_int m ''42'' = Inr (Some 42, None)"
    by (simp add: parse_int_unfold py_int_examples)
  have b: "parse_int m ''abc'' = Inr (None, Some (DefaultError ''Error parsing string as int''))"
    by (simp add: parse_int_unfold py_int_examples)
  from load_json_unfold load_jsons_unfold parse_int_literal_iff parse_int_error_iff a b
  show ?thesis by (intro conjI)
qed

theorem wrappers_never_raise_witness:
  "load_jsons loads_literal ''{not json'' = Inr (None, Some (DefaultError ''Error loading JSON.''))
   \<and> load_json loads_literal (Inr ''false'') = Inr (Some False, None)
   \<and> parse_int 4300 '' -1_000 '' = Inr (Some (- 1000), None)
   \<and> parse_int 4300 ''4 2'' = Inr (None, Some (DefaultError ''Error parsing string as int''))"
proof -
  note w = wrappers_never_raise [of loads_literal "Inr ''false''" "''{not json''" 4300 "'' -1_000 ''" "- 1000"]
  note x = wrappers_never_raise [of loads_literal "Inr ''false''" "''{not json''" 4300 "''4 2''" 0]
  have lit: "int_literal 4300 '' -1_000 '' (- 1000)"
    unfolding int_literal_def
    by (intro exI [of _ "'' ''"] exI [of _ "''-''"] exI [of _ "[''1'', ''000'']"])
       (simp add: int_space_def digit_group_def is_digit_def too_many_digits_def
          decimal_value_def digit_value_def)
  have nolit: "\<not> (\<exists>j. int_literal 4300 ''4 2'' j)"
  proof
    assume "\<exists>j. int_literal 4300 ''4 2'' j"
    then obtain j where "int_literal 4300 ''4 2'' j" by blast
    then have "py_int 4300 ''4 2'' = Inr j" by (rule py_int_literal)
    then show False by (simp add: py_int_examples)
  qed
  have a: "load_jsons loads_literal ''{not json'' = Inr (None, Some (DefaultError ''Error loading JSON.''))"
    unfolding w [THEN conjunct2, THEN conjunct1] by (simp add: loads_literal_def)
  have b: "load_json loads_literal (Inr ''false'') = Inr (Some False, None)"
    unfolding w [THEN conjunct1] by (simp add: loads_literal_def)
  have c: "parse_int 4300 '' -1_000 '' = Inr (Some (- 1000), None)"
    using w [THEN conjunct2, THEN conjunct2, THEN conjunct1] lit by blast
  have d: "parse_int 4300 ''4 2'' = Inr (None, Some (DefaultError ''Error parsing string as int''))"
    using x [THEN conjunct2, THEN conjunct2, THEN conjunct2, THEN conjunct1] nolit by blast
  from a b c d show ?thesis by (intro conjI)
qed

text \<open>
  Claim C9, as amended. Each wrapper returns a pair, never both a value and an error;
  the error is \<^verbatim>\<open>None\<close> exactly when the wrapped call returned, and is the error of the
  fixed message otherwise. For \<^verbatim>\<open>parse_int\<close> exactly one slot is \<^verbatim>\<open>None\<close>. The two JSON
  wrappers return \<^verbatim>\<open>(None, None)\<close> exactly when the decoded value is \<^verbatim>\<open>None\<close>, that
  is for the JSON text \<^verbatim>\<open>null\<close>.
\<close>

theorem result_error_pair:
  "(\<exists>x e. load_jsons json_loads v = Inr (x, e)
        \<and> (x = None \<or> e = None)
        \<and> (e = None \<longleftrightarrow> (\<exists>y. json_loads v = Inr y))
        \<and> (e = None \<or> e = Some (DefaultError ''Error loading JSON.''))
        \<and> (x = None \<and> e = None \<longleftrightarrow> json_loads v = Inr None))
   \<and> (\<exists>x e. load_json json_loads reader = Inr (x, e)
        \<and> (x = None \<or> e = None)
        \<and> (e = None \<longleftrightarrow> (\<exists>t y. reader = Inr t \<and> json_loads t = Inr y))
        \<and> (e = None \<or> e = Some (DefaultError ''Error loading JSON.''))
        \<and> (x = None \<and> e = None \<longleftrightarrow> (\<exists>t. reader = Inr t \<and> json_loads t = Inr None)))
   \<and> (\<exists>n e. parse_int m s = Inr (n, e)
        \<and> (n = None \<longleftrightarrow> e \<noteq> None)
        \<and> (e = None \<longleftrightarrow> (\<exists>k. py_int m s = Inr k))
        \<and> (e = None \<or> e = Some (DefaultError ''Error parsing string as int'')))"
proof (intro conjI)
  show "\<exists>x e. load_jsons json_loads v = Inr (x, e)
        \<and> (x = None \<or> e = None)
        \<and> (e = None \<longleftrightarrow> (\<exists>y. json_loads v = Inr y))
        \<and> (e = None \<or> e = Some (DefaultError ''Error loading JSON.''))
        \<and> (x = None \<and> e = None \<longleftrightarrow> json_loads v = Inr None)"
    by (cases "json_loads v") (simp_all add: load_jsons_unfold)
  show "\<exists>x e. load_json json_loads reader = Inr (x, e)
        \<and> (x = None \<or> e = None)
        \<and> (e = None \<longleftrightarrow> (\<exists>t y. reader = Inr t \<and> json_loads t = Inr y))
        \<and> (e = None \<or> e = Some (DefaultError ''Error loading JSON.''))
        \<and> (x = None \<and> e = None \<longleftrightarrow> (\<exists>t. reader = Inr t \<and> json_loads t = Inr None))"
  proof (cases reader)
    case (Inl exc)
    then show ?thesis by (simp add: load_json_unfold)
  next
    case (Inr t)
    then show ?thesis by (cases "json_loads t") (simp_all add: load_json_unfold)
  qed
  show "\<exists>n e. parse_int m s = Inr (n, e)
        \<and> (n = None \<longleftrightarrow> e \<noteq> None)
        \<and> (e = None \<longleftrightarrow> (\<exists>k. py_int m s = Inr k))
        \<and> (e = None \<or> e = Some (DefaultError ''Error parsing string as int''))"
    by (cases "py_int m s") (simp_all add: parse_int_unfold)
qed

text \<open>
  Claim C9 as stated fails: decoding the JSON text \<^verbatim>\<open>null\<close> succeeds with the value
  \<^verbatim>\<open>None\<close>, and the pair is \<^verbatim>\<open>(None, None)\<close>.
\<close>

theorem load_jsons_null_counterexample:
  "load_jsons loads_literal ''null'' = Inr (None, None)
   \<and> load_json loads_literal (Inr ''null'') = Inr (None, None)"
  by (simp add: load_jsons_unfold load_json_unfold loads_literal_def)

theorem result_error_pair_witness:
  "\<exists>n e. parse_int 4300 ''abc'' = Inr (n, e) \<and> (n = None \<longleftrightarrow> e \<noteq> None)
        \<and> (e = None \<longleftrightarrow> (\<exists>k. py_int 4300 ''abc'' = Inr k))
        \<and> (e = None \<or> e = Some (DefaultError ''Error parsing string as int''))"
  by (rule result_error_pair [of loads_literal "''true''" "Inr ''true''" 4300 "''abc''",
        THEN conjunct2, THEN conjunct2])

section \<open>Properties of tempdir\<close>

lemma within_trans: "within d p \<Longrightarrow> within p q \<Longrightarrow> within d q"
proof -
  assume dp: "within d p" and pq: "within p q"
  show ?thesis
  proof (cases "p = d")
    case True
    with pq show ?thesis by simp
  next
    case False
    with dp have 1: "prefix (d @ ''/'') p" by (simp add: within_def)
    show ?thesis
    proof (cases "q = p")
      case True
      with dp show ?thesis by simp
    next
      case False
      with pq have "prefix (p @ ''/'') q" by (simp add: within_def)
      then have "prefix p q" by (metis prefix_order.order_trans prefixI)
      with 1 have "prefix (d @ ''/'') q" by (rule prefix_order.order_trans)
      then show ?thesis by (simp add: within_def)
    qed
  qed
qed

lemma rmtree_set:
  "set (rmtree_ignore_errors deletable d fs) =
     {p \<in> set fs. \<not> within d p \<or> (\<exists>q \<in> set fs. within p q \<and> \<not> deletable q)}"
  by (auto simp: rmtree_ignore_errors_def removed_by_rmtree_def list_all_iff)

lemma rmtree_all_deletable:
  assumes "\<forall>p \<in> set fs. within d p \<longrightarrow> deletable p"
  shows "\<forall>p \<in> set (rmtree_ignore_errors deletable d fs). \<not> within d p"
proof
  fix p
  assume p: "p \<in> set (rmtree_ignore_errors deletable d fs)"
  show "\<not> within d p"
  proof
    assume w: "within d p"
    with p obtain q where q: "q \<in> set fs" "within p q" "\<not> deletable q"
      by (auto simp: rmtree_set)
    from w q(2) have "within d q" by (rule within_trans)
    with assms q show False by blast
  qed
qed

text \<open>
  Claim C7, as amended. When \<^verbatim>\<open>mkdtemp\<close> has made the directory, the statement ends as
  its body ends, with the value or with the exception, and in both cases the file system
  left behind is the one of the body after \<^verbatim>\<open>rmtree\<close> with ignored errors. If every
  entry at or beneath the directory can be deleted, nothing at or beneath it is left. An
  entry that is left has something at or beneath it that could not be deleted. What lies
  outside the directory stays.
\<close>

theorem tempdir_released:
  assumes made: "mkdtemp fs = Inr d"
    and ran: "body d (d # fs) = (outcome, fs1)"
  shows "fst (tempdir mkdtemp deletable body fs) = outcome
       \<and> snd (tempdir mkdtemp deletable body fs) = rmtree_ignore_errors deletable d fs1
       \<and> ((\<forall>p \<in> set fs1. within d p \<longrightarrow> deletable p) \<longrightarrow>
            (\<forall>p \<in> set (snd (tempdir mkdtemp deletable body fs)). \<not> within d p))
       \<and> (\<forall>p \<in> set (snd (tempdir mkdtemp deletable body fs)).
             within d p \<longrightarrow> (\<exists>q \<in> set fs1. within p q \<and> \<not> deletable q))
       \<and> (\<forall>p \<in> set fs1. \<not> within d p \<longrightarrow> p \<in> set (snd (tempdir mkdtemp deletable body fs)))"
proof -
  have t: "tempdir mkdtemp deletable body fs = (outcome, rmtree_ignore_errors deletable d fs1)"
    using made ran by (simp add: tempdir_def)
  have a: "fst (tempdir mkdtemp deletable body fs) = outcome" by (simp add: t)
  have b: "snd (tempdir mkdtemp deletable body fs) = rmtree_ignore_errors deletable d fs1"
    by (simp add: t)
  have c: "(\<forall>p \<in> set fs1. within d p \<longrightarrow> deletable p) \<longrightarrow>
            (\<forall>p \<in> set (snd (tempdir mkdtemp deletable body fs)). \<not> within d p)"
    unfolding b using rmtree_all_deletable [of fs1 d deletable] by blast
  have d: "\<forall>p \<in> set (snd (tempdir mkdtemp deletable body fs)).
             within d p \<longrightarrow> (\<exists>q \<in> set fs1. within p q \<and> \<not> deletable q)"
    unfolding b by (auto simp: rmtree_set)
  have e: "\<forall>p \<in> set fs1. \<not> within d p \<longrightarrow> p \<in> set (snd (tempdir mkdtemp deletable body fs))"
    unfolding b by (auto simp: rmtree_set)
  from a b c d e show ?thesis by (intro conjI)
qed

text \<open>
  When \<^verbatim>\<open>mkdtemp\<close> raises, the body does not run and the file system is as before.
\<close>

lemma tempdir_mkdtemp_raises:
  "mkdtemp fs = Inl exc \<Longrightarrow> tempdir mkdtemp deletable body fs = (Inl exc, fs)"
  by (simp add: tempdir_def)

text \<open>
  Claim C7 as stated fails on "never outlives": the body leaves an entry that cannot be
  deleted, the error of its removal is ignored, and the directory is still there after the
  statement.
\<close>

theorem tempdir_outlives_counterexample:
  "tempdir (\<lambda>fs. Inr ''/tmp/t'') (\<lambda>p. p \<noteq> ''/tmp/t/held'')
     (\<lambda>d fs. (Inl OSError :: py_exception + unit, (d @ ''/held'') # fs)) [''/tmp'']
   = (Inl OSError, [''/tmp/t/held'', ''/tmp/t'', ''/tmp''])"
  by (simp add: tempdir_def rmtree_ignore_errors_def removed_by_rmtree_def within_def)

theorem tempdir_released_witness:
  "tempdir (\<lambda>fs. Inr ''/tmp/t'') (\<lambda>p. True)
     (\<lambda>d fs. (Inl OSError :: py_exception + unit, (d @ ''/out'') # fs)) [''/tmp'', ''/tmp/tt'']
   = (Inl OSError, [''/tmp'', ''/tmp/tt''])
  \<and> tempdir (\<lambda>fs. Inr ''/tmp/t'') (\<lambda>p. True)
     (\<lambda>d fs. (Inr (), (d @ ''/out'') # fs)) [''/tmp'', ''/tmp/tt'']
   = (Inr (), [''/tmp'', ''/tmp/tt''])"
proof -
  let ?mk = "\<lambda>fs :: filesystem. Inr ''/tmp/t'' :: py_exception + string"
  let ?fs = "[''/tmp'', ''/tmp/tt'']"
  have rm: "rmtree_ignore_errors (\<lambda>p. True) ''/tmp/t'' [''/tmp/t/out'', ''/tmp/t'', ''/tmp'', ''/tmp/tt'']
      = [''/tmp'', ''/tmp/tt'']"
    by (simp add: rmtree_ignore_errors_def removed_by_rmtree_def within_def)
  let ?b1 = "\<lambda>(d :: string) (fs :: filesystem). (Inl OSError :: py_exception + unit, (d @ ''/out'') # fs)"
  let ?b2 = "\<lambda>(d :: string) (fs :: filesystem). (Inr () :: py_exception + unit, (d @ ''/out'') # fs)"
  note r1 = tempdir_released [where mkdtemp = ?mk and fs = ?fs and d = "''/tmp/t''" and body = ?b1
      and outcome = "Inl OSError" and ?fs1.0 = "[''/tmp/t/out'', ''/tmp/t'', ''/tmp'', ''/tmp/tt'']"
      and deletable = "\<lambda>p. True"]
  note r2 = tempdir_released [where mkdtemp = ?mk and fs = ?fs and d = "''/tmp/t''" and body = ?b2
      and outcome = "Inr ()" and ?fs1.0 = "[''/tmp/t/out'', ''/tmp/t'', ''/tmp'', ''/tmp/tt'']"
      and deletable = "\<lambda>p. True"]
  have a: "tempdir ?mk (\<lambda>p. True) ?b1 ?fs = (Inl OSError, ?fs)"
    using r1 by (simp add: rm prod_eq_iff)
  have b: "tempdir ?mk (\<lambda>p. True) ?b2 ?fs = (Inr (), ?fs)"
    using r2 by (simp add: rm prod_eq_iff)
  from a b show ?thesis by (intro conjI)
qed

end
